theory Spec2Isabelle
  imports Main "HOL-Library.Word"
begin

section \<open>Common types\<close>

text \<open>
  \<^verbatim>\<open>hsize_t\<close> is HDF5's 64-bit unsigned size type, \<^verbatim>\<open>unsigned\<close> and \<^verbatim>\<open>uint32_t\<close> are
  32 bits wide and \<^verbatim>\<open>unsigned long\<close> is 64 bits wide (the LP64 platforms the test runs
  on); all are machine words, so that every sum and product wraps as in C.
  \<^verbatim>\<open>hid_t\<close> and \<^verbatim>\<open>herr_t\<close> are signed integers that the code only compares with zero
  and with \<^verbatim>\<open>H5I_INVALID_HID\<close>; \<^verbatim>\<open>FAIL\<close> is \<open>-1\<close> and \<^verbatim>\<open>SUCCEED\<close> is \<open>0\<close>.
\<close>

type_synonym hsize_t = "64 word"
type_synonym uint32_t = "32 word"
type_synonym ulong = "64 word"
type_synonym hid_t = int
type_synonym herr_t = int

definition FAIL :: int where "FAIL = -1"
definition SUCCEED :: int where "SUCCEED = 0"
definition H5P_DEFAULT :: hid_t where "H5P_DEFAULT = 0"
definition H5I_INVALID_HID :: hid_t where "H5I_INVALID_HID = -1"

text \<open>
  How the writer stops early: a failed \<^verbatim>\<open>assert\<close>, \<^verbatim>\<open>err\<close> or \<^verbatim>\<open>errx\<close> with its
  message (both exit with \<^verbatim>\<open>EXIT_FAILURE\<close>), and \<^verbatim>\<open>usage\<close>, which prints the usage text
  and exits with \<^verbatim>\<open>EXIT_FAILURE\<close>.
\<close>

datatype exit_t = AssertFailed | ExitFailure string | Usage

section \<open>Model of \<^verbatim>\<open>test/vfd_swmr_bigset_writer.c\<close>\<close>

subsection \<open>The matrix and \<^verbatim>\<open>init_matrix\<close>\<close>

text \<open>
  The loop counters \<^verbatim>\<open>row\<close> and \<^verbatim>\<open>col\<close> of \<^verbatim>\<open>init_matrix\<close> stay below 256 and 512
  and are natural numbers, converted to \<^verbatim>\<open>hsize_t\<close> where the source adds them to the base.
  The matrix \<^verbatim>\<open>uint32_t mat[ROWS][COLS]\<close> is a function of the two indices.
\<close>

type_synonym matrix = "nat \<Rightarrow> nat \<Rightarrow> uint32_t"

definition ROWS :: nat where "ROWS = 256"
definition COLS :: nat where "COLS = 512"
definition UINT32_MAX :: uint32_t where "UINT32_MAX = 0xFFFFFFFF"

record base_t =
  row :: hsize_t
  col :: hsize_t

definition matrix_u :: "base_t \<Rightarrow> nat \<Rightarrow> nat \<Rightarrow> hsize_t" where
  "matrix_u base r c =
     (let i = row base + of_nat r;
          j = col base + of_nat c
      in if j \<le> i then (i + 1) * (i + 1) - 1 - j else j * j + i)"

function init_matrix_cols :: "matrix \<Rightarrow> uint32_t \<Rightarrow> base_t \<Rightarrow> nat \<Rightarrow> nat \<Rightarrow> exit_t + matrix" where
  "init_matrix_cols mat which base r c =
     (if c < COLS then
        (let u = matrix_u base r c in
         if ucast UINT32_MAX - u \<ge> ucast which
         then init_matrix_cols (mat(r := (mat r)(c := ucast (u + ucast which)))) which base r (Suc c)
         else Inl AssertFailed)
      else Inr mat)"
  by pat_completeness auto
termination
  by (relation "measure (\<lambda>(mat, which, base, r, c). COLS - c)") auto

function init_matrix_rows :: "matrix \<Rightarrow> uint32_t \<Rightarrow> base_t \<Rightarrow> nat \<Rightarrow> exit_t + matrix" where
  "init_matrix_rows mat which base r =
     (if r < ROWS then
        (case init_matrix_cols mat which base r 0 of
           Inl e \<Rightarrow> Inl e
         | Inr mat' \<Rightarrow> init_matrix_rows mat' which base (Suc r))
      else Inr mat)"
  by pat_completeness auto
termination
  by (relation "measure (\<lambda>(mat, which, base, r). ROWS - r)") auto

definition init_matrix :: "matrix \<Rightarrow> uint32_t \<Rightarrow> base_t \<Rightarrow> exit_t + matrix" where
  "init_matrix mat which base = init_matrix_rows mat which base 0"

text \<open>
  The assertion of \<^verbatim>\<open>init_matrix\<close> and the value it stores, for the cell at
  in-chunk position \<open>(r, c)\<close>: \<^verbatim>\<open>assert(UINT32_MAX - u >= which)\<close> is evaluated in
  \<^verbatim>\<open>hsize_t\<close>, and \<^verbatim>\<open>(uint32_t)(u + which)\<close> keeps the low 32 bits.
\<close>

definition cell_ok :: "uint32_t \<Rightarrow> base_t \<Rightarrow> nat \<Rightarrow> nat \<Rightarrow> bool" where
  "cell_ok which base r c \<longleftrightarrow> ucast which \<le> ucast UINT32_MAX - matrix_u base r c"

definition cell_val :: "uint32_t \<Rightarrow> base_t \<Rightarrow> nat \<Rightarrow> nat \<Rightarrow> uint32_t" where
  "cell_val which base r c = ucast (matrix_u base r c + ucast which)"

text \<open>
  The value the specification gives for the element at global coordinates \<open>(i, j)\<close>,
  over the natural numbers: \<open>(i+1)\<^sup>2 - 1 - j\<close> when \<open>j \<le> i\<close>, and \<open>j\<^sup>2 + i\<close> otherwise.
\<close>

definition spec_value :: "nat \<Rightarrow> nat \<Rightarrow> nat" where
  "spec_value i j = (if j \<le> i then (i + 1) * (i + 1) - 1 - j else j * j + i)"

subsection \<open>The writer's state\<close>

record timespec =
  tv_sec :: int
  tv_nsec :: int

definition NSETS :: nat where "NSETS = 5"
definition RANK :: nat where "RANK = 2"
definition PATH_MAX :: nat where "PATH_MAX = 4096"
definition UINT_MAX :: ulong where "UINT_MAX = 0xFFFFFFFF"
definition ULONG_MAX :: nat where "ULONG_MAX = 2 ^ 64 - 1"
definition badhid :: hid_t where "badhid = H5I_INVALID_HID"

record state_t =
  max_elapsed_ns :: "64 word"
  min_elapsed_ns :: "64 word"
  total_elapsed_ns :: "64 word"
  total_loops :: "64 word"
  dataset :: "hid_t list"
  memspace :: hid_t
  h5file :: hid_t
  output_file :: string
  progname :: string
  update_interval :: timespec
  fuzz :: bool
  constantrate :: bool
  nsteps :: "32 word"
  two_dee :: bool
  wait_for_signal :: bool
  use_vfd_swmr :: bool

text \<open>
  The member \<^verbatim>\<open>file\<close> of \<^verbatim>\<open>state_t\<close> is \<open>h5file\<close> here.
  \<^verbatim>\<open>ALL_HID_INITIALIZER\<close>: the members that the compound literal does not name
  (\<^verbatim>\<open>dataset\<close>, \<^verbatim>\<open>progname\<close>, \<^verbatim>\<open>fuzz\<close>) are zero.
\<close>

definition ALL_HID_INITIALIZER :: state_t where
  "ALL_HID_INITIALIZER =
     \<lparr>max_elapsed_ns = 0,
      min_elapsed_ns = - 1,
      total_elapsed_ns = 0,
      total_loops = 0,
      dataset = replicate NSETS 0,
      memspace = H5I_INVALID_HID,
      h5file = H5I_INVALID_HID,
      output_file = [],
      progname = [],
      update_interval = \<lparr>tv_sec = 0, tv_nsec = 1000000000 div 30\<rparr>,
      fuzz = False,
      constantrate = False,
      nsteps = 100,
      two_dee = False,
      wait_for_signal = True,
      use_vfd_swmr = True\<rparr>"

definition original_dims :: "hsize_t list" where "original_dims = [of_nat ROWS, of_nat COLS]"
definition H5S_UNLIMITED :: hsize_t where "H5S_UNLIMITED = - 1"
definition one_dee_max_dims :: "hsize_t list" where "one_dee_max_dims = [H5S_UNLIMITED, of_nat COLS]"
definition two_dee_max_dims :: "hsize_t list" where "two_dee_max_dims = [H5S_UNLIMITED, H5S_UNLIMITED]"
definition chunk_dims :: "hsize_t list" where "chunk_dims = original_dims"

subsection \<open>The C library functions that \<^verbatim>\<open>state_init\<close> calls\<close>

text \<open>
  \<^verbatim>\<open>getopt\<close>, \<^verbatim>\<open>strtoul\<close> and \<^verbatim>\<open>basename\<close> belong to the C library, and \<^verbatim>\<open>esnprintf\<close>
  to \<^verbatim>\<open>vfd_swmr_common.c\<close>; they are modelled after the C standard and, for \<^verbatim>\<open>getopt\<close>,
  after the GNU C library, whose \<^verbatim>\<open>getopt\<close> permutes the arguments.

  \<^verbatim>\<open>getopt\<close> keeps, between calls, the rest of the argument it is reading (the option
  letters that follow the one it returned), the arguments after it, and the arguments
  that it has passed over because they are not options.  An argument is an option when
  it starts with \<^verbatim>\<open>-\<close> and has another character.  An argument that is not an option is
  passed over and the scan goes on, so that the options after it are still read (POSIX
  would stop at it).  \<^verbatim>\<open>getopt\<close> returns \<open>None\<close> for \<open>-1\<close>: at the end of the arguments and
  at the argument \<^verbatim>\<open>--\<close>, which it skips.  What is left then (\<^verbatim>\<open>argc - optind\<close> arguments)
  is what was passed over and what follows \<^verbatim>\<open>--\<close>.  It returns the letter \<^verbatim>\<open>?\<close> for a
  letter that is not in the option string and for a missing option argument.  The
  option argument is the rest of the argument when there is one, and the next argument
  otherwise.
\<close>

fun opt_lookup :: "string \<Rightarrow> char \<Rightarrow> bool option" where
  "opt_lookup [] c = None"
| "opt_lookup (x # xs) c =
     (if x = c \<and> c \<noteq> CHR '':'' then Some (case xs of [] \<Rightarrow> False | y # ys \<Rightarrow> y = CHR '':'')
      else opt_lookup xs c)"

type_synonym getopt_state = "string \<times> string list \<times> string list"

definition getopt_letter ::
  "string \<Rightarrow> char \<Rightarrow> string \<Rightarrow> string list \<Rightarrow> string list \<Rightarrow> (char \<times> string) option \<times> getopt_state" where
  "getopt_letter optstring c cl args passed =
     (case opt_lookup optstring c of
        None \<Rightarrow> (Some (CHR ''?'', []), (cl, args, passed))
      | Some False \<Rightarrow> (Some (c, []), (cl, args, passed))
      | Some True \<Rightarrow>
          if cl \<noteq> [] then (Some (c, cl), ([], args, passed))
          else (case args of
                  [] \<Rightarrow> (Some (CHR ''?'', []), ([], [], passed))
                | a # rest \<Rightarrow> (Some (c, a), ([], rest, passed))))"

fun getopt :: "string \<Rightarrow> getopt_state \<Rightarrow> (char \<times> string) option \<times> getopt_state" where
  "getopt optstring (c # cl, args, passed) = getopt_letter optstring c cl args passed"
| "getopt optstring ([], [], passed) = (None, ([], [], passed))"
| "getopt optstring ([], a # args, passed) =
     (if a = ''--'' then (None, ([], args, passed))
      else case a of
        d # c # cl \<Rightarrow>
          if d = CHR ''-'' then getopt_letter optstring c cl args passed
          else getopt optstring ([], args, passed @ [a])
      | _ \<Rightarrow> getopt optstring ([], args, passed @ [a]))"

definition getopt_left :: "getopt_state \<Rightarrow> string list" where
  "getopt_left st = snd (snd st) @ fst (snd st)"

definition getopt_size :: "getopt_state \<Rightarrow> nat" where
  "getopt_size st = length (fst st) + length (concat (fst (snd st))) + length (fst (snd st))"

text \<open>
  \<^verbatim>\<open>strtoul(s, &end, 0)\<close>: white space, an optional sign, then the longest run of digits
  of the base, which is 16 after \<^verbatim>\<open>0x\<close> and a hexadecimal digit, 8 after \<^verbatim>\<open>0\<close>, and 10
  otherwise.  The result is the value, what \<^verbatim>\<open>end\<close> points to, and whether \<^verbatim>\<open>errno\<close>
  is \<^verbatim>\<open>ERANGE\<close>.  With no digits nothing is converted: the value is 0 and \<^verbatim>\<open>end\<close> is
  the string itself.  A value above \<^verbatim>\<open>ULONG_MAX\<close> gives \<^verbatim>\<open>ULONG_MAX\<close> and \<^verbatim>\<open>ERANGE\<close>; a
  minus sign negates the value in \<^verbatim>\<open>unsigned long\<close>.
\<close>

definition isspace :: "char \<Rightarrow> bool" where
  "isspace c \<longleftrightarrow> c = CHR '' '' \<or> (9 \<le> (of_char c :: nat) \<and> (of_char c :: nat) \<le> 13)"

definition digit_of :: "char \<Rightarrow> nat" where
  "digit_of c =
     (let n = (of_char c :: nat) in
      if 48 \<le> n \<and> n \<le> 57 then n - 48
      else if 97 \<le> n \<and> n \<le> 122 then n - 87
      else if 65 \<le> n \<and> n \<le> 90 then n - 55
      else 36)"

definition strtoul_digits :: "nat \<Rightarrow> string \<Rightarrow> nat" where
  "strtoul_digits b ds = foldl (\<lambda>v c. v * b + digit_of c) 0 ds"

definition hex_prefix :: "string \<Rightarrow> bool" where
  "hex_prefix s =
     (case s of
        z # x # h # t \<Rightarrow> z = CHR ''0'' \<and> (x = CHR ''x'' \<or> x = CHR ''X'') \<and> digit_of h < 16
      | _ \<Rightarrow> False)"

definition strtoul_base :: "string \<Rightarrow> nat \<times> string" where
  "strtoul_base s =
     (if hex_prefix s then (16, drop 2 s)
      else if (case s of [] \<Rightarrow> False | z # t \<Rightarrow> z = CHR ''0'') then (8, s)
      else (10, s))"

definition strtoul_sign :: "string \<Rightarrow> bool \<times> string" where
  "strtoul_sign s =
     (case s of
        [] \<Rightarrow> (False, [])
      | c # t \<Rightarrow> if c = CHR ''-'' then (True, t) else if c = CHR ''+'' then (False, t) else (False, s))"

definition strtoul :: "string \<Rightarrow> ulong \<times> string \<times> bool" where
  "strtoul s =
     (case strtoul_sign (dropWhile isspace s) of (neg, s2) \<Rightarrow>
      case strtoul_base s2 of (b, s3) \<Rightarrow>
        let ds = takeWhile (\<lambda>c. digit_of c < b) s3;
            rest = dropWhile (\<lambda>c. digit_of c < b) s3;
            v = strtoul_digits b ds
        in if ds = [] then (0, s, False)
           else if ULONG_MAX < v then (of_nat ULONG_MAX, rest, True)
           else (if neg then - of_nat v else of_nat v, rest, False))"

definition basename :: "string \<Rightarrow> string" where
  "basename path =
     (let p = rev (dropWhile (\<lambda>c. c = CHR ''/'') (rev path)) in
      if path = [] then ''.''
      else if p = [] then ''/''
      else rev (takeWhile (\<lambda>c. c \<noteq> CHR ''/'') (rev p)))"

definition esnprintf :: "nat \<Rightarrow> string \<Rightarrow> exit_t + string" where
  "esnprintf bufsz s = (if length s < bufsz then Inr s else Inl (ExitFailure ''buffer too small''))"

subsection \<open>\<^verbatim>\<open>state_init\<close>: the command line\<close>

text \<open>
  The body of the \<^verbatim>\<open>switch\<close>, for the letter and the option argument that \<^verbatim>\<open>getopt\<close>
  returned.  The global \<^verbatim>\<open>verbosity\<close> of \<^verbatim>\<open>vfd_swmr_common.c\<close> is passed along with the
  state.
\<close>

definition option_d :: "state_t \<Rightarrow> string \<Rightarrow> exit_t + state_t" where
  "option_d s optarg =
     (if optarg = ''1'' \<or> optarg = ''one'' then Inr (s\<lparr>two_dee := False\<rparr>)
      else if optarg = ''2'' \<or> optarg = ''two'' \<or> optarg = ''both'' then Inr (s\<lparr>two_dee := True\<rparr>)
      else Inl (ExitFailure (''bad -d argument \"'' @ optarg @ ''\"'')))"

definition option_n :: "state_t \<Rightarrow> string \<Rightarrow> exit_t + state_t" where
  "option_n s optarg =
     (case strtoul optarg of (tmp, end, erange) \<Rightarrow>
        if end = optarg \<or> end \<noteq> [] then Inl (ExitFailure (''couldn't parse `-n` argument `'' @ optarg @ ''`''))
        else if erange then Inl (ExitFailure (''couldn't parse `-n` argument `'' @ optarg @ ''`''))
        else if UINT_MAX < tmp then Inl (ExitFailure ''`-n` argument too large'')
        else Inr (s\<lparr>nsteps := ucast tmp\<rparr>))"

definition option_u :: "state_t \<Rightarrow> string \<Rightarrow> exit_t + state_t" where
  "option_u s optarg =
     (case strtoul optarg of (millis, end, erange) \<Rightarrow>
        if millis = of_nat ULONG_MAX \<and> erange then Inl (ExitFailure (''option -p argument \"'' @ optarg @ ''\"''))
        else if end \<noteq> [] then Inl (ExitFailure (''garbage after -p argument \"'' @ optarg @ ''\"''))
        else Inr (s\<lparr>update_interval :=
               \<lparr>tv_sec = uint (millis div 1000),
                tv_nsec = uint ((millis * 1000000) mod 1000000000)\<rparr>\<rparr>))"

definition handle_option :: "state_t \<Rightarrow> int \<Rightarrow> char \<Rightarrow> string \<Rightarrow> exit_t + state_t \<times> int" where
  "handle_option s verbosity ch optarg =
     (if ch = CHR ''S'' then Inr (s\<lparr>use_vfd_swmr := False\<rparr>, verbosity)
      else if ch = CHR ''W'' then Inr (s\<lparr>wait_for_signal := False\<rparr>, verbosity)
      else if ch = CHR ''c'' then Inr (s\<lparr>constantrate := True\<rparr>, verbosity)
      else if ch = CHR ''d'' then map_sum id (\<lambda>s'. (s', verbosity)) (option_d s optarg)
      else if ch = CHR ''n'' then map_sum id (\<lambda>s'. (s', verbosity)) (option_n s optarg)
      else if ch = CHR ''q'' then Inr (s, 1)
      else if ch = CHR ''u'' then map_sum id (\<lambda>s'. (s', verbosity)) (option_u s optarg)
      else Inl Usage)"

definition optstring :: string where "optstring = ''SWcd:n:qu:''"

lemma getopt_letter_size:
  "getopt_letter os c cl args passed = (Some x, st') \<Longrightarrow>
   getopt_size st' < getopt_size (c # cl, args, passed)"
  by (auto simp: getopt_letter_def getopt_size_def split: option.splits bool.splits if_splits list.splits)

lemma getopt_size:
  "getopt os st = (Some x, st') \<Longrightarrow> getopt_size st' < getopt_size st"
proof (induction os st rule: getopt.induct)
  case (1 os c cl args passed)
  then show ?case by (simp add: getopt_letter_size)
next
  case (2 os passed)
  then show ?case by simp
next
  case (3 os a args passed)
  show ?case
  proof (cases "\<exists>c cl. a = CHR ''-'' # c # cl")
    case True
    then obtain c cl where a: "a = CHR ''-'' # c # cl" by blast
    have "getopt_letter os c cl args passed = (Some x, st')"
      using "3.prems" a by (simp split: if_splits)
    then have "getopt_size st' < getopt_size (c # cl, args, passed)"
      by (rule getopt_letter_size)
    then show ?thesis using a by (simp add: getopt_size_def)
  next
    case False
    then have g: "getopt os ([], args, passed @ [a]) = (Some x, st')"
      using "3.prems" by (auto split: if_splits list.splits)
    have "getopt_size st' < getopt_size ([], args, passed @ [a])"
      using False g "3.prems" "3.IH" by (auto split: if_splits list.splits)
    then show ?thesis by (simp add: getopt_size_def)
  qed
qed

text \<open>
  The \<^verbatim>\<open>while\<close> loop over \<^verbatim>\<open>getopt\<close>.  It ends with the state, the verbosity and the
  arguments that \<^verbatim>\<open>getopt\<close> left (\<^verbatim>\<open>argc - optind\<close> of them).
\<close>

function state_init_loop ::
  "state_t \<Rightarrow> int \<Rightarrow> getopt_state \<Rightarrow> exit_t + state_t \<times> int \<times> string list" where
  "state_init_loop s verbosity st =
     (case getopt optstring st of
        (None, st') \<Rightarrow> Inr (s, verbosity, getopt_left st')
      | (Some (ch, optarg), st') \<Rightarrow>
          (case handle_option s verbosity ch optarg of
             Inl e \<Rightarrow> Inl e
           | Inr (s', verbosity') \<Rightarrow> state_init_loop s' verbosity' st'))"
  by pat_completeness auto
termination
  apply (relation "measure (\<lambda>(s, verbosity, st). getopt_size st)")
   apply simp
  apply (auto dest: getopt_size[OF sym])
  done

text \<open>
  \<^verbatim>\<open>state_init\<close> up to the end of the command line: the initial state, the program
  name, the options, and the test \<^verbatim>\<open>argc > 0\<close> on what is left.
\<close>

definition parse_args :: "int \<Rightarrow> string \<Rightarrow> string list \<Rightarrow> exit_t + state_t \<times> int" where
  "parse_args verbosity argv0 args =
     (case esnprintf PATH_MAX argv0 of
        Inl e \<Rightarrow> Inl e
      | Inr tfile \<Rightarrow>
        (case esnprintf PATH_MAX (basename tfile) of
           Inl e \<Rightarrow> Inl e
         | Inr pn \<Rightarrow>
           (case state_init_loop (ALL_HID_INITIALIZER\<lparr>progname := pn\<rparr>) verbosity ([], args, []) of
              Inl e \<Rightarrow> Inl e
            | Inr (s, verbosity', left) \<Rightarrow>
                if 0 < length left then Inl (ExitFailure ''unexpected command-line arguments'')
                else Inr (s, verbosity'))))"

text \<open>
  The option letters of a command line, in the order in which \<^verbatim>\<open>getopt\<close> returns them
  to the loop of \<^verbatim>\<open>state_init\<close>.
\<close>

function getopt_letters :: "getopt_state \<Rightarrow> char list" where
  "getopt_letters st =
     (case getopt optstring st of
        (None, st') \<Rightarrow> []
      | (Some (ch, optarg), st') \<Rightarrow> ch # getopt_letters st')"
  by pat_completeness auto
termination
  apply (relation "measure getopt_size")
   apply simp
  apply (auto dest: getopt_size[OF sym])
  done

subsection \<open>Library calls and traces\<close>

text \<open>
  The writer talks to the HDF5 library, to \<^verbatim>\<open>vfd_swmr_common.c\<close> and to the C library
  through the calls below, none of which is among the source files.  A run of the
  writer is modelled together with the calls it makes: a trace lists every call with the
  value it returned, oldest first, and the environment is any function from the trace
  so far and the call to the returned value.  Nothing is assumed about it: a call may
  fail at any time.  For the \<^verbatim>\<open>void\<close> functions (\<^verbatim>\<open>block_signals\<close>, \<^verbatim>\<open>await_signal\<close>,
  \<^verbatim>\<open>restore_signals\<close>, \<^verbatim>\<open>free\<close>) and for \<^verbatim>\<open>nanosleep\<close>, whose result the writer
  ignores, the value is ignored.  The buffer that \<^verbatim>\<open>H5Dwrite\<close> is given is recorded
  with its contents at the time of the call.
\<close>

datatype H5P_plist_class = H5P_DATASET_CREATE | H5P_FILE_CREATE
datatype H5T_type = H5T_STD_U32BE | H5T_NATIVE_UINT32
datatype H5S_seloper_t = H5S_SELECT_SET
datatype H5F_fspace_strategy_t = H5F_FSPACE_STRATEGY_PAGE

definition H5F_ACC_TRUNC :: nat where "H5F_ACC_TRUNC = 2"

datatype call =
    H5Screate_simple nat "hsize_t list" "hsize_t list option"
  | H5Pcreate H5P_plist_class
  | H5Pset_chunk hid_t nat "hsize_t list"
  | H5Dcreate2 hid_t string H5T_type hid_t hid_t hid_t hid_t
  | H5Sclose hid_t
  | H5Dset_extent hid_t "hsize_t list"
  | H5Dget_space hid_t
  | H5Sselect_hyperslab hid_t H5S_seloper_t "hsize_t list" "hsize_t list option"
      "hsize_t list" "hsize_t list option"
  | H5Dwrite hid_t H5T_type hid_t hid_t hid_t matrix
  | vfd_swmr_create_fapl bool bool bool
  | H5Pset_file_space_strategy hid_t H5F_fspace_strategy_t bool hsize_t
  | H5Fcreate string nat hid_t hid_t
  | H5Pclose hid_t
  | H5Fclose hid_t
  | malloc nat
  | free
  | block_signals
  | await_signal hid_t
  | restore_signals
  | nanosleep timespec

type_synonym trace = "(call \<times> int) list"
type_synonym library = "trace \<Rightarrow> call \<Rightarrow> int"
type_synonym 'a prog = "trace \<Rightarrow> (exit_t + 'a) \<times> trace"

definition ret :: "'a \<Rightarrow> 'a prog" where
  "ret x tr = (Inr x, tr)"

definition stop :: "exit_t \<Rightarrow> 'a prog" where
  "stop e tr = (Inl e, tr)"

definition thn :: "'a prog \<Rightarrow> ('a \<Rightarrow> 'b prog) \<Rightarrow> 'b prog" where
  "thn m f tr = (case m tr of (Inl e, tr') \<Rightarrow> (Inl e, tr') | (Inr x, tr') \<Rightarrow> f x tr')"

definition lib_call :: "library \<Rightarrow> call \<Rightarrow> int prog" where
  "lib_call lib c tr = (Inr (lib tr c), tr @ [(c, lib tr c)])"

definition lift :: "exit_t + 'a \<Rightarrow> 'a prog" where
  "lift r tr = (r, tr)"

text \<open>\<^verbatim>\<open>if (failed) errx(EXIT_FAILURE, msg)\<close> and \<^verbatim>\<open>assert(ok)\<close>.\<close>

definition errx_if :: "bool \<Rightarrow> string \<Rightarrow> unit prog" where
  "errx_if failed msg = (if failed then stop (ExitFailure msg) else ret ())"

definition assert :: "bool \<Rightarrow> unit prog" where
  "assert ok = (if ok then ret () else stop AssertFailed)"

subsection \<open>\<^verbatim>\<open>state_init\<close>\<close>

definition state_init :: "library \<Rightarrow> int \<Rightarrow> string \<Rightarrow> string list \<Rightarrow> (state_t \<times> int) prog" where
  "state_init lib verbosity argv0 args =
     thn (lift (parse_args verbosity argv0 args)) (\<lambda>(s, verbosity').
     thn (lib_call lib (H5Screate_simple RANK chunk_dims None)) (\<lambda>space.
     thn (errx_if (space < 0) ''state_init: H5Screate_simple failed'') (\<lambda>_.
     thn (lift (esnprintf PATH_MAX (progname s @ ''.h5''))) (\<lambda>out.
     ret (s\<lparr>dataset := replicate NSETS badhid, memspace := space, output_file := out\<rparr>,
          verbosity')))))"

subsection \<open>\<^verbatim>\<open>create_extensible_dset\<close>\<close>

text \<open>\<^verbatim>\<open>%d\<close> of a number below \<open>2\<^sup>3\<^sup>1\<close>: its decimal digits.\<close>

fun decimal :: "nat \<Rightarrow> string" where
  "decimal n =
     (if n < 10 then [char_of (48 + n)] else decimal (n div 10) @ [char_of (48 + n mod 10)])"

declare decimal.simps [simp del]

definition create_extensible_dset :: "library \<Rightarrow> state_t \<Rightarrow> uint32_t \<Rightarrow> state_t prog" where
  "create_extensible_dset lib s which =
     thn (assert (which \<le> 99)) (\<lambda>_.
     thn (assert (unat which < length (dataset s))) (\<lambda>_.
     thn (lift (esnprintf (length ''/dataset-10'' + 1) (''/dataset-'' @ decimal (unat which)))) (\<lambda>dname.
     thn (assert (dataset s ! unat which = badhid)) (\<lambda>_.
     thn (lib_call lib (H5Screate_simple (length original_dims) original_dims
            (Some (if two_dee s then two_dee_max_dims else one_dee_max_dims)))) (\<lambda>filespace.
     thn (errx_if (filespace < 0) ''create_extensible_dset: H5Screate_simple failed'') (\<lambda>_.
     thn (lib_call lib (H5Pcreate H5P_DATASET_CREATE)) (\<lambda>dcpl.
     thn (errx_if (dcpl < 0) ''create_extensible_dset: H5Pcreate failed'') (\<lambda>_.
     thn (lib_call lib (H5Pset_chunk dcpl RANK chunk_dims)) (\<lambda>r.
     thn (errx_if (r < 0) ''H5Pset_chunk failed'') (\<lambda>_.
     thn (lib_call lib (H5Dcreate2 (h5file s) dname H5T_STD_U32BE filespace H5P_DEFAULT dcpl
            H5P_DEFAULT)) (\<lambda>ds.
     thn (lib_call lib (H5Sclose filespace)) (\<lambda>r.
     thn (errx_if (r < 0) ''H5Sclose failed'') (\<lambda>_.
     thn (errx_if (ds < 0) (''H5Dcreate(, \"'' @ dname @ ''\", ) failed'')) (\<lambda>_.
     ret (s\<lparr>dataset := (dataset s)[unat which := ds]\<rparr>)))))))))))))))"

subsection \<open>\<^verbatim>\<open>init_and_write_chunk\<close> and \<^verbatim>\<open>write_extensible_dset\<close>\<close>

definition init_and_write_chunk ::
  "library \<Rightarrow> hid_t \<Rightarrow> hid_t \<Rightarrow> hid_t \<Rightarrow> matrix \<Rightarrow> uint32_t \<Rightarrow> base_t \<Rightarrow> matrix prog" where
  "init_and_write_chunk lib ds filespace mspace mat which base =
     thn (lift (init_matrix mat which base)) (\<lambda>mat'.
     thn (lib_call lib (H5Sselect_hyperslab filespace H5S_SELECT_SET [row base, col base] None
            chunk_dims None)) (\<lambda>status.
     thn (errx_if (status < 0) ''H5Sselect_hyperslab failed'') (\<lambda>_.
     thn (lib_call lib (H5Dwrite ds H5T_NATIVE_UINT32 mspace filespace H5P_DEFAULT mat')) (\<lambda>status.
     thn (errx_if (status < 0) ''H5Dwrite failed'') (\<lambda>_.
     ret mat')))))"

text \<open>
  The new size of the dataset and the base of its last block, for a step: the first half
  of \<^verbatim>\<open>write_extensible_dset\<close>.  The sum \<^verbatim>\<open>1 + step\<close> is an \<^verbatim>\<open>unsigned\<close> sum, converted to
  \<^verbatim>\<open>hsize_t\<close> for the product.
\<close>

definition new_size :: "bool \<Rightarrow> uint32_t \<Rightarrow> hsize_t list" where
  "new_size two step =
     [original_dims ! 0 * ucast (1 + step),
      if two then original_dims ! 1 * ucast (1 + step) else original_dims ! 1]"

definition last_base :: "bool \<Rightarrow> uint32_t \<Rightarrow> base_t" where
  "last_base two step =
     \<lparr>row = original_dims ! 0 * ucast step,
      col = (if two then original_dims ! 1 * ucast step else 0)\<rparr>"

lemma last_base_bound:
  "unat (row (last_base two step)) \<le> 256 * 4294967295"
  "unat (col (last_base two step)) \<le> 512 * 4294967295"
proof -
  have "unat step < 2 ^ 32"
    using unsigned_less[where 'b = 32 and w = step and 'a = nat] by simp
  then have s: "unat (ucast step :: hsize_t) \<le> 4294967295"
    by (simp add: unsigned_ucast_eq take_bit_nat_eq_self)
  have "unat (256 * (ucast step :: hsize_t)) \<le> 256 * unat (ucast step :: hsize_t)"
    by (simp add: unat_word_ariths)
  then show "unat (row (last_base two step)) \<le> 256 * 4294967295"
    using s by (simp add: last_base_def original_dims_def ROWS_def)
  have "unat (512 * (ucast step :: hsize_t)) \<le> 512 * unat (ucast step :: hsize_t)"
    by (simp add: unat_word_ariths)
  then show "unat (col (last_base two step)) \<le> 512 * 4294967295"
    using s by (simp add: last_base_def original_dims_def COLS_def)
qed

lemma hsize_advance:
  fixes b l d :: hsize_t
  assumes "b \<le> l" "unat l \<le> 512 * 4294967295" "0 < unat d" "unat d \<le> 512"
  shows "18446744073709551616 - unat (b + d) < 18446744073709551616 - unat b"
proof -
  have "unat b \<le> 512 * 4294967295" using assms by (simp add: word_le_nat_alt)
  then have "unat b + unat d < 2 ^ 64" using assms by simp
  then have "unat (b + d) = unat b + unat d" using unat_add_lem[of b d] by simp
  then show ?thesis using assms \<open>unat b + unat d < 2 ^ 64\<close> by simp
qed

text \<open>
  The two loops of the two-dimensional mode.  The first writes the last column of
  blocks, from row 0 to the last row; the second writes the last row of blocks, from
  column 0 to the column before the last.  The bound \<open>last\<close> of each is the last base
  of the step.
\<close>

function write_last_col ::
  "library \<Rightarrow> hid_t \<Rightarrow> hid_t \<Rightarrow> hid_t \<Rightarrow> uint32_t \<Rightarrow> uint32_t \<Rightarrow> hsize_t \<Rightarrow> matrix \<Rightarrow> matrix prog" where
  "write_last_col lib ds filespace mspace which step base_row mat tr =
     (let last = last_base True step in
      if base_row \<le> row last then
        (case init_and_write_chunk lib ds filespace mspace mat which
                \<lparr>row = base_row, col = col last\<rparr> tr of
           (Inl e, tr') \<Rightarrow> (Inl e, tr')
         | (Inr mat', tr') \<Rightarrow>
             write_last_col lib ds filespace mspace which step (base_row + original_dims ! 0) mat' tr')
      else (Inr mat, tr))"
  by pat_completeness auto
termination
  apply (relation "measure (\<lambda>(lib, ds, filespace, mspace, which, step, base_row, mat, tr). 2 ^ 64 - unat base_row)")
   apply simp
  apply (simp add: original_dims_def ROWS_def)
  apply (rule hsize_advance, assumption)
    apply (rule order_trans[OF last_base_bound(1)])
    apply simp_all
  done

function write_last_row ::
  "library \<Rightarrow> hid_t \<Rightarrow> hid_t \<Rightarrow> hid_t \<Rightarrow> uint32_t \<Rightarrow> uint32_t \<Rightarrow> hsize_t \<Rightarrow> matrix \<Rightarrow> matrix prog" where
  "write_last_row lib ds filespace mspace which step base_col mat tr =
     (let last = last_base True step in
      if base_col < col last then
        (case init_and_write_chunk lib ds filespace mspace mat which
                \<lparr>row = row last, col = base_col\<rparr> tr of
           (Inl e, tr') \<Rightarrow> (Inl e, tr')
         | (Inr mat', tr') \<Rightarrow>
             write_last_row lib ds filespace mspace which step (base_col + original_dims ! 1) mat' tr')
      else (Inr mat, tr))"
  by pat_completeness auto
termination
  apply (relation "measure (\<lambda>(lib, ds, filespace, mspace, which, step, base_col, mat, tr). 2 ^ 64 - unat base_col)")
   apply simp
  apply (simp add: original_dims_def COLS_def)
  apply (rule hsize_advance, erule less_imp_le)
    apply (rule last_base_bound(2))
   apply simp_all
  done

definition write_extensible_dset ::
  "library \<Rightarrow> state_t \<Rightarrow> uint32_t \<Rightarrow> uint32_t \<Rightarrow> matrix \<Rightarrow> matrix prog" where
  "write_extensible_dset lib s which step mat =
     thn (assert (unat which < length (dataset s))) (\<lambda>_.
     thn (lib_call lib (H5Dset_extent (dataset s ! unat which) (new_size (two_dee s) step))) (\<lambda>r.
     thn (errx_if (r < 0) ''H5Dset_extent failed'') (\<lambda>_.
     thn (lib_call lib (H5Dget_space (dataset s ! unat which))) (\<lambda>filespace.
     thn (errx_if (filespace = badhid) ''H5Dget_space failed'') (\<lambda>_.
     thn (if two_dee s then
            thn (write_last_col lib (dataset s ! unat which) filespace (memspace s) which step 0 mat)
              (\<lambda>mat'. write_last_row lib (dataset s ! unat which) filespace (memspace s) which step 0 mat')
          else init_and_write_chunk lib (dataset s ! unat which) filespace (memspace s) mat which
                 (last_base False step)) (\<lambda>mat'.
     thn (lib_call lib (H5Sclose filespace)) (\<lambda>r.
     thn (errx_if (r < 0) ''H5Sclose failed'') (\<lambda>_.
     ret mat'))))))))"

subsection \<open>\<^verbatim>\<open>main\<close>\<close>

text \<open>
  The loops of \<^verbatim>\<open>main\<close> count \<^verbatim>\<open>which\<close> up to \<^verbatim>\<open>NSETS\<close> and \<^verbatim>\<open>step\<close> up to
  \<^verbatim>\<open>s.nsteps\<close>; neither counter can wrap, and both are natural numbers here, converted
  to \<^verbatim>\<open>unsigned\<close> where they are passed on.
\<close>

fun create_all :: "library \<Rightarrow> nat \<Rightarrow> nat \<Rightarrow> state_t \<Rightarrow> state_t prog" where
  "create_all lib 0 which s tr = (Inr s, tr)"
| "create_all lib (Suc n) which s tr =
     (case create_extensible_dset lib s (of_nat which) tr of
        (Inl e, tr') \<Rightarrow> (Inl e, tr')
      | (Inr s', tr') \<Rightarrow> create_all lib n (Suc which) s' tr')"

fun write_all :: "library \<Rightarrow> state_t \<Rightarrow> nat \<Rightarrow> nat \<Rightarrow> nat \<Rightarrow> matrix \<Rightarrow> matrix prog" where
  "write_all lib s step 0 which mat tr = (Inr mat, tr)"
| "write_all lib s step (Suc n) which mat tr =
     (case write_extensible_dset lib s (of_nat which) (of_nat step) mat tr of
        (Inl e, tr') \<Rightarrow> (Inl e, tr')
      | (Inr mat', tr') \<Rightarrow>
          (case lib_call lib (nanosleep (update_interval s)) tr' of
             (r, tr'') \<Rightarrow> write_all lib s step n (Suc which) mat' tr''))"

fun epochs :: "library \<Rightarrow> state_t \<Rightarrow> nat \<Rightarrow> nat \<Rightarrow> matrix \<Rightarrow> matrix prog" where
  "epochs lib s 0 step mat tr = (Inr mat, tr)"
| "epochs lib s (Suc n) step mat tr =
     (case write_all lib s step NSETS 0 mat tr of
        (Inl e, tr') \<Rightarrow> (Inl e, tr')
      | (Inr mat', tr') \<Rightarrow> epochs lib s n (Suc step) mat' tr')"

text \<open>
  \<^verbatim>\<open>main\<close> in four parts: up to \<^verbatim>\<open>block_signals\<close>; the creation of the datasets; the
  write epochs; the end, from the test on \<^verbatim>\<open>await_signal\<close>.  \<open>mat0\<close> is what the matrix
  that \<^verbatim>\<open>malloc\<close> returns holds.  The first counter of \<open>create_all\<close>, \<open>write_all\<close> and
  \<open>epochs\<close> is the number of rounds left: \<^verbatim>\<open>NSETS\<close>, and \<^verbatim>\<open>s.nsteps\<close> for the epochs.
\<close>

record handles =
  fapl :: hid_t
  fcpl :: hid_t

definition main_open :: "library \<Rightarrow> int \<Rightarrow> string \<Rightarrow> string list \<Rightarrow> (state_t \<times> handles) prog" where
  "main_open lib verbosity argv0 args =
     thn (state_init lib verbosity argv0 args) (\<lambda>(s, verbosity').
     thn (lib_call lib (malloc (ROWS * COLS * 4))) (\<lambda>onheap.
     thn (errx_if (onheap = 0) ''main: could not allocate matrix on heap'') (\<lambda>_.
     thn (lib_call lib (vfd_swmr_create_fapl True True (use_vfd_swmr s))) (\<lambda>fapl_id.
     thn (errx_if (fapl_id < 0) ''vfd_swmr_create_fapl'') (\<lambda>_.
     thn (lib_call lib (H5Pcreate H5P_FILE_CREATE)) (\<lambda>fcpl_id.
     thn (errx_if (fcpl_id < 0) ''H5Pcreate'') (\<lambda>_.
     thn (lib_call lib (H5Pset_file_space_strategy fcpl_id H5F_FSPACE_STRATEGY_PAGE False 1)) (\<lambda>r.
     thn (errx_if (r < 0) ''H5Pset_file_space_strategy'') (\<lambda>_.
     thn (lib_call lib (H5Fcreate (output_file s) H5F_ACC_TRUNC fcpl_id fapl_id)) (\<lambda>f.
     thn (errx_if (f = badhid) ''H5Fcreate'') (\<lambda>_.
     thn (lib_call lib block_signals) (\<lambda>_.
     ret (s\<lparr>h5file := f\<rparr>, \<lparr>fapl = fapl_id, fcpl = fcpl_id\<rparr>)))))))))))))"

definition main_close :: "library \<Rightarrow> state_t \<Rightarrow> handles \<Rightarrow> unit prog" where
  "main_close lib s h =
     thn (if use_vfd_swmr s \<and> wait_for_signal s
          then lib_call lib (await_signal (h5file s)) else ret 0) (\<lambda>_.
     thn (lib_call lib restore_signals) (\<lambda>_.
     thn (lib_call lib (H5Pclose (fapl h))) (\<lambda>r.
     thn (errx_if (r < 0) ''H5Pclose(fapl)'') (\<lambda>_.
     thn (lib_call lib (H5Pclose (fcpl h))) (\<lambda>r.
     thn (errx_if (r < 0) ''H5Pclose(fcpl)'') (\<lambda>_.
     thn (lib_call lib (H5Fclose (h5file s))) (\<lambda>r.
     thn (errx_if (r < 0) ''H5Fclose'') (\<lambda>_.
     thn (lib_call lib free) (\<lambda>_.
     ret ())))))))))"

definition main :: "library \<Rightarrow> int \<Rightarrow> string \<Rightarrow> string list \<Rightarrow> matrix \<Rightarrow> unit prog" where
  "main lib verbosity argv0 args mat0 =
     thn (main_open lib verbosity argv0 args) (\<lambda>(s, h).
     thn (create_all lib NSETS 0 s) (\<lambda>s'.
     thn (epochs lib s' (unat (nsteps s')) 0 mat0) (\<lambda>mat.
     main_close lib s' h)))"

subsection \<open>What a trace shows\<close>

text \<open>
  The claims speak of the datasets that exist, of their extents and of the blocks
  written.  These are read off the trace, call by call, as the HDF5 interface documents
  the calls: \<^verbatim>\<open>H5Screate_simple\<close> returns a dataspace of the given current and maximum
  dimensions; \<^verbatim>\<open>H5Pcreate\<close> returns a fresh property list and \<^verbatim>\<open>H5Pset_chunk\<close> sets the
  chunk dimensions of one; \<^verbatim>\<open>H5Dcreate2\<close> creates a dataset with the dimensions of its
  dataspace and the chunk dimensions of its creation property list; \<^verbatim>\<open>H5Dset_extent\<close>
  sets the extent of a dataset; \<^verbatim>\<open>H5Dget_space\<close> returns a dataspace with nothing
  selected by the writer yet; \<^verbatim>\<open>H5Sselect_hyperslab\<close> with \<^verbatim>\<open>H5S_SELECT_SET\<close> replaces the
  selection of a dataspace by the hyperslab of the given start, stride, count and block
  (a null stride or block stands for ones, so that with both null the hyperslab is the
  box of \<open>count\<close> elements at \<open>start\<close>); \<^verbatim>\<open>H5Dwrite\<close> writes the buffer, read through
  the memory dataspace, to the selection of the file dataspace of the dataset.
  A call that returned a negative value shows nothing.
\<close>

record dataset_info =
  ds_id :: hid_t
  ds_name :: string
  ds_type :: H5T_type
  ds_space :: "(hsize_t list \<times> hsize_t list option) option"
  ds_chunk :: "hsize_t list option"

record hyperslab =
  hs_start :: "hsize_t list"
  hs_stride :: "hsize_t list option"
  hs_count :: "hsize_t list"
  hs_block :: "hsize_t list option"

record write_info =
  w_ds :: hid_t
  w_mem_type :: H5T_type
  w_mem_space :: hid_t
  w_file_sel :: "hyperslab option"
  w_buf :: matrix

record h5_view =
  spaces :: "hid_t \<rightharpoonup> hsize_t list \<times> hsize_t list option"
  chunking :: "hid_t \<rightharpoonup> hsize_t list"
  selection :: "hid_t \<rightharpoonup> hyperslab"
  created :: "dataset_info list"
  extents :: "(hid_t \<times> hsize_t list) list"
  written :: "write_info list"

definition no_view :: h5_view where
  "no_view = \<lparr>spaces = Map.empty, chunking = Map.empty, selection = Map.empty,
              created = [], extents = [], written = []\<rparr>"

definition observe :: "h5_view \<Rightarrow> call \<times> int \<Rightarrow> h5_view" where
  "observe v e =
     (case e of (c, r) \<Rightarrow>
        if r < 0 then v
        else (case c of
            H5Screate_simple rank dims maxdims \<Rightarrow> v\<lparr>spaces := (spaces v)(r \<mapsto> (dims, maxdims))\<rparr>
          | H5Pcreate cls \<Rightarrow> v\<lparr>chunking := (chunking v)(r := None)\<rparr>
          | H5Pset_chunk plist rank dims \<Rightarrow> v\<lparr>chunking := (chunking v)(plist \<mapsto> dims)\<rparr>
          | H5Dcreate2 loc nm ty space lcpl dcpl dapl \<Rightarrow>
              v\<lparr>created := created v @
                   [\<lparr>ds_id = r, ds_name = nm, ds_type = ty, ds_space = spaces v space,
                     ds_chunk = chunking v dcpl\<rparr>]\<rparr>
          | H5Dset_extent ds sz \<Rightarrow> v\<lparr>extents := extents v @ [(ds, sz)]\<rparr>
          | H5Dget_space ds \<Rightarrow> v\<lparr>selection := (selection v)(r := None)\<rparr>
          | H5Sselect_hyperslab space oper start stride count block \<Rightarrow>
              v\<lparr>selection := (selection v)(space \<mapsto>
                   \<lparr>hs_start = start, hs_stride = stride, hs_count = count, hs_block = block\<rparr>)\<rparr>
          | H5Dwrite ds mtype mspace fspace dxpl buf \<Rightarrow>
              v\<lparr>written := written v @
                   [\<lparr>w_ds = ds, w_mem_type = mtype, w_mem_space = mspace,
                     w_file_sel = selection v fspace, w_buf = buf\<rparr>]\<rparr>
          | _ \<Rightarrow> v))"

definition view_from :: "h5_view \<Rightarrow> trace \<Rightarrow> h5_view" where
  "view_from v tr = foldl observe v tr"

definition view_of :: "trace \<Rightarrow> h5_view" where
  "view_of tr = view_from no_view tr"

text \<open>
  The blocks written: for each \<^verbatim>\<open>H5Dwrite\<close> the dataset and the selection in the file.
  \<open>chunk_at start\<close> is the selection of one chunk, the box of 256 by 512 elements at
  \<open>start\<close>.  \<open>holds_chunk which w\<close> says that the buffer of the write \<open>w\<close> holds, at every
  position of the chunk, the value that \<^verbatim>\<open>init_matrix\<close> stores there for the dataset
  \<open>which\<close> and the base at which the selection starts.
\<close>

definition chunks_written :: "h5_view \<Rightarrow> (hid_t \<times> hyperslab option) list" where
  "chunks_written v = map (\<lambda>w. (w_ds w, w_file_sel w)) (written v)"

definition chunk_at :: "hsize_t list \<Rightarrow> hyperslab" where
  "chunk_at start = \<lparr>hs_start = start, hs_stride = None, hs_count = [256, 512], hs_block = None\<rparr>"

definition holds_chunk :: "uint32_t \<Rightarrow> write_info \<Rightarrow> bool" where
  "holds_chunk which w \<longleftrightarrow>
     (case w_file_sel w of
        None \<Rightarrow> False
      | Some h \<Rightarrow>
          length (hs_start h) = 2 \<and>
          (\<forall>r\<in>{0..<ROWS}. \<forall>c\<in>{0..<COLS}.
             w_buf w r c = cell_val which \<lparr>row = hs_start h ! 0, col = hs_start h ! 1\<rparr> r c))"

text \<open>
  \<open>wrote which ms w b\<close>: the write \<open>w\<close> is the write of the block \<open>b\<close> (a dataset and a
  selection), from a buffer of \<^verbatim>\<open>uint32_t\<close> read through the memory dataspace \<open>ms\<close>, and
  the buffer holds the chunk of the dataset \<open>which\<close>.
\<close>

definition wrote :: "uint32_t \<Rightarrow> hid_t \<Rightarrow> write_info \<Rightarrow> hid_t \<times> hyperslab option \<Rightarrow> bool" where
  "wrote which ms w b \<longleftrightarrow>
     w_ds w = fst b \<and> w_file_sel w = snd b \<and> w_mem_type w = H5T_NATIVE_UINT32 \<and>
     w_mem_space w = ms \<and> holds_chunk which w"

definition datasets :: "h5_view \<Rightarrow> (string \<times> (hsize_t list \<times> hsize_t list option) option \<times> hsize_t list option) list" where
  "datasets v = map (\<lambda>d. (ds_name d, ds_space d, ds_chunk d)) (created v)"

text \<open>
  The kinds of calls: \<open>emits K m\<close> says that whatever \<open>m\<close> adds to the trace, however
  it ends, is made of calls of kind \<open>K\<close>.
\<close>

definition emits :: "(call \<Rightarrow> bool) \<Rightarrow> 'a prog \<Rightarrow> bool" where
  "emits K m \<longleftrightarrow>
     (\<forall>tr res tr'. m tr = (res, tr') \<longrightarrow> (\<exists>evs. tr' = tr @ evs \<and> (\<forall>e\<in>set evs. K (fst e))))"

definition open_call :: "call \<Rightarrow> bool" where
  "open_call c =
     (case c of
        H5Screate_simple rank dims maxdims \<Rightarrow> True
      | malloc n \<Rightarrow> True
      | vfd_swmr_create_fapl x y z \<Rightarrow> True
      | H5Pcreate cls \<Rightarrow> True
      | H5Pset_file_space_strategy p st persist thr \<Rightarrow> True
      | H5Fcreate nm flags p q \<Rightarrow> True
      | block_signals \<Rightarrow> True
      | _ \<Rightarrow> False)"

definition create_call :: "call \<Rightarrow> bool" where
  "create_call c =
     (case c of
        H5Screate_simple rank dims maxdims \<Rightarrow> True
      | H5Pcreate cls \<Rightarrow> True
      | H5Pset_chunk p rank dims \<Rightarrow> True
      | H5Dcreate2 loc nm ty space lcpl dcpl dapl \<Rightarrow> True
      | H5Sclose space \<Rightarrow> True
      | _ \<Rightarrow> False)"

definition chunk_call :: "call \<Rightarrow> bool" where
  "chunk_call c =
     (case c of
        H5Sselect_hyperslab space oper start stride count block \<Rightarrow> True
      | H5Dwrite ds mtype mspace fspace dxpl buf \<Rightarrow> True
      | _ \<Rightarrow> False)"

definition epoch_call :: "call \<Rightarrow> bool" where
  "epoch_call c =
     (case c of
        H5Dset_extent ds sz \<Rightarrow> True
      | H5Dget_space ds \<Rightarrow> True
      | H5Sselect_hyperslab space oper start stride count block \<Rightarrow> True
      | H5Dwrite ds mtype mspace fspace dxpl buf \<Rightarrow> True
      | H5Sclose space \<Rightarrow> True
      | nanosleep t \<Rightarrow> True
      | _ \<Rightarrow> False)"

definition close_call :: "call \<Rightarrow> bool" where
  "close_call c =
     (case c of
        await_signal f \<Rightarrow> True
      | restore_signals \<Rightarrow> True
      | H5Pclose p \<Rightarrow> True
      | H5Fclose f \<Rightarrow> True
      | free \<Rightarrow> True
      | _ \<Rightarrow> False)"

definition is_set_extent :: "call \<Rightarrow> bool" where
  "is_set_extent c = (case c of H5Dset_extent ds sz \<Rightarrow> True | _ \<Rightarrow> False)"

definition is_await :: "call \<Rightarrow> bool" where
  "is_await c = (case c of await_signal f \<Rightarrow> True | _ \<Rightarrow> False)"

definition is_fclose :: "call \<Rightarrow> bool" where
  "is_fclose c = (case c of H5Fclose f \<Rightarrow> True | _ \<Rightarrow> False)"

text \<open>
  \<open>adds F evs xs\<close>: whatever was seen before, the calls \<open>evs\<close> add exactly \<open>xs\<close> to the
  list \<open>F\<close> of the view (the datasets created, the extents set, the blocks written).
\<close>

definition adds :: "(h5_view \<Rightarrow> 'a list) \<Rightarrow> trace \<Rightarrow> 'a list \<Rightarrow> bool" where
  "adds F evs xs \<longleftrightarrow> (\<forall>v. F (view_from v evs) = F v @ xs)"

text \<open>
  The blocks of step \<open>k\<close> as the specification lists them, for the dataset \<open>ds\<close>: in
  two dimensions the last column of blocks, rows 0 to \<open>k\<close>, then the last row of blocks,
  columns 0 to \<open>k - 1\<close>; in one dimension the block at row \<open>k\<close>.
\<close>

definition step_blocks :: "bool \<Rightarrow> hid_t \<Rightarrow> nat \<Rightarrow> (hid_t \<times> hyperslab option) list" where
  "step_blocks two ds k =
     (if two then
        map (\<lambda>i. (ds, Some (chunk_at [of_nat (256 * i), of_nat (512 * k)]))) [0..<Suc k] @
        map (\<lambda>j. (ds, Some (chunk_at [of_nat (256 * k), of_nat (512 * j)]))) [0..<k]
      else [(ds, Some (chunk_at [of_nat (256 * k), 0]))])"

text \<open>
  Reading a trace around a kind of call: \<open>before K tr\<close> is the trace up to the first call
  of the kind \<open>K\<close>, all of it when there is none; \<open>since K tr\<close> is the rest, from that call
  on; \<open>occurs K tr\<close> says that the trace has a call of the kind \<open>K\<close>.
  \<open>no_flag ch args\<close> says that the command line \<open>args\<close> does not have the flag \<open>ch\<close>:
  \<^verbatim>\<open>getopt\<close> never returns this letter on it.  \<open>dataset_entry two k\<close> is what the view
  shows of the dataset \<open>k\<close> as \<^verbatim>\<open>create_extensible_dset\<close> creates it: its name, its
  dimensions and maximum dimensions, and its chunk dimensions.
\<close>

definition before :: "(call \<Rightarrow> bool) \<Rightarrow> trace \<Rightarrow> trace" where
  "before K tr = takeWhile (\<lambda>e. \<not> K (fst e)) tr"

definition since :: "(call \<Rightarrow> bool) \<Rightarrow> trace \<Rightarrow> trace" where
  "since K tr = dropWhile (\<lambda>e. \<not> K (fst e)) tr"

definition occurs :: "(call \<Rightarrow> bool) \<Rightarrow> trace \<Rightarrow> bool" where
  "occurs K tr \<longleftrightarrow> (\<exists>e\<in>set tr. K (fst e))"

definition no_flag :: "char \<Rightarrow> string list \<Rightarrow> bool" where
  "no_flag ch args \<longleftrightarrow> ch \<notin> set (getopt_letters ([], args, []))"

definition dataset_entry ::
  "bool \<Rightarrow> nat \<Rightarrow> string \<times> (hsize_t list \<times> hsize_t list option) option \<times> hsize_t list option" where
  "dataset_entry two k =
     (''/dataset-'' @ decimal k,
      Some ([256, 512], Some (if two then [H5S_UNLIMITED, H5S_UNLIMITED] else [H5S_UNLIMITED, 512])),
      Some [256, 512])"

text \<open>
  A library none of whose calls fails: no call returns a negative value (the failure
  value of \<^verbatim>\<open>herr_t\<close> and \<^verbatim>\<open>hid_t\<close>), and \<^verbatim>\<open>malloc\<close> does not return the null pointer.
\<close>

definition never_fails :: "library \<Rightarrow> bool" where
  "never_fails lib \<longleftrightarrow> (\<forall>tr c. 0 \<le> lib tr c) \<and> (\<forall>tr n. lib tr (malloc n) \<noteq> 0)"

section \<open>Model of \<^verbatim>\<open>src/H5G.c\<close>\<close>

subsection \<open>Identifiers, error codes and results\<close>

text \<open>
  A \<^verbatim>\<open>const char *\<close> argument is a \<open>string option\<close>: \<open>None\<close> is the null pointer, and
  \<open>Some s\<close> points to the characters \<open>s\<close> before the terminating NUL.
\<close>

text \<open>
  The identifier classes of \<^verbatim>\<open>H5Ipublic.h\<close> that the functions of \<^verbatim>\<open>H5G.c\<close> tell
  apart; \<open>H5I_OTHER n\<close> stands for every further class.
\<close>

datatype H5I_type_t =
    H5I_BADID | H5I_FILE | H5I_GROUP | H5I_DATATYPE | H5I_DATASPACE | H5I_DATASET
  | H5I_ATTR | H5I_OTHER nat

datatype H5P_class_t = H5P_LINK_CREATE | H5P_GROUP_CREATE | H5P_CLS_GACC | H5P_CLS_LACC

datatype H5E_major_t = H5E_ARGS | H5E_SYM | H5E_ATOM | H5E_FUNC

datatype H5E_minor_t =
    H5E_BADTYPE | H5E_BADVALUE | H5E_CANTSET | H5E_CANTINIT | H5E_CANTREGISTER
  | H5E_CLOSEERROR | H5E_CANTOPENOBJ | H5E_CANTGET | H5E_CANTLOAD

type_synonym H5E_error = "H5E_major_t \<times> H5E_minor_t \<times> string"

text \<open>
  What an API function leaves behind: its return value, the errors it pushed on the
  error stack (\<^verbatim>\<open>HGOTO_ERROR\<close> and \<^verbatim>\<open>HDONE_ERROR\<close>, oldest first), and the state of
  the library.
\<close>

record 'w api_result =
  ret_value :: int
  errors :: "H5E_error list"
  world :: 'w

definition api_fail :: "H5E_error list \<Rightarrow> 'w \<Rightarrow> 'w api_result" where
  "api_fail es w = \<lparr>ret_value = FAIL, errors = es, world = w\<rparr>"

definition api_return :: "int \<Rightarrow> 'w \<Rightarrow> 'w api_result" where
  "api_return v w = \<lparr>ret_value = v, errors = [], world = w\<rparr>"

subsection \<open>The library functions that \<^verbatim>\<open>H5G.c\<close> calls\<close>

text \<open>
  The callees of \<^verbatim>\<open>H5G.c\<close> live in other files of the library.  They are the fields
  of a record, over a library state \<open>'w\<close>, group locations \<open>'l\<close> (\<^verbatim>\<open>H5G_loc_t\<close>), open
  groups \<open>'g\<close> (\<^verbatim>\<open>H5G_t\<close>) and group information \<open>'i\<close> (\<^verbatim>\<open>H5G_info_t\<close>): every
  theorem about a function of \<^verbatim>\<open>H5G.c\<close> holds whatever the callees do.
  A callee that returns a pointer returns an option (\<open>None\<close> is \<^verbatim>\<open>NULL\<close>); one that
  changes the library state returns the new state; \<open>H5P_isa_class\<close> is whether the
  callee returns \<^verbatim>\<open>TRUE\<close>; \<open>H5P_verify_apl_and_dxpl\<close> returns the access and transfer
  property lists it stores through its pointer arguments, or \<open>None\<close> when it fails;
  \<open>H5G__obj_info\<close> takes the contents of the caller's structure and returns what the
  structure holds afterwards.  \<open>FUNC_ENTER_API\<close> is whether the library initialises
  on entry: the macro returns its argument, \<^verbatim>\<open>FAIL\<close>, when it does not.
\<close>

record ('w, 'l, 'g, 'i) H5_lib =
  FUNC_ENTER_API :: "'w \<Rightarrow> bool"
  H5G_loc :: "hid_t \<Rightarrow> 'w \<Rightarrow> 'l option"
  H5P_isa_class :: "hid_t \<Rightarrow> H5P_class_t \<Rightarrow> 'w \<Rightarrow> bool"
  H5P_LINK_CREATE_DEFAULT :: hid_t
  H5P_GROUP_CREATE_DEFAULT :: hid_t
  H5AC_ind_read_dxpl_id :: hid_t
  H5P_verify_apl_and_dxpl :: "hid_t \<Rightarrow> H5P_class_t \<Rightarrow> hid_t \<Rightarrow> hid_t \<Rightarrow> bool \<Rightarrow> 'w \<Rightarrow> (hid_t \<times> hid_t) option"
  H5G__create_named :: "'l \<Rightarrow> string \<Rightarrow> hid_t \<Rightarrow> hid_t \<Rightarrow> hid_t \<Rightarrow> hid_t \<Rightarrow> 'w \<Rightarrow> 'g option \<times> 'w"
  H5G__open_name :: "'l \<Rightarrow> string \<Rightarrow> hid_t \<Rightarrow> hid_t \<Rightarrow> 'w \<Rightarrow> 'g option \<times> 'w"
  H5I_register :: "H5I_type_t \<Rightarrow> 'g \<Rightarrow> bool \<Rightarrow> 'w \<Rightarrow> hid_t \<times> 'w"
  H5G_close :: "'g \<Rightarrow> 'w \<Rightarrow> herr_t \<times> 'w"
  H5I_get_type :: "hid_t \<Rightarrow> 'w \<Rightarrow> H5I_type_t"
  H5G__obj_info :: "'l \<Rightarrow> 'i \<Rightarrow> hid_t \<Rightarrow> 'w \<Rightarrow> herr_t \<times> 'i"
  H5I_object_verify :: "hid_t \<Rightarrow> H5I_type_t \<Rightarrow> 'w \<Rightarrow> 'g option"
  H5O_refresh_metadata :: "hid_t \<Rightarrow> 'g \<Rightarrow> hid_t \<Rightarrow> 'w \<Rightarrow> herr_t \<times> 'w"

subsection \<open>\<^verbatim>\<open>H5Gcreate2\<close> and \<^verbatim>\<open>H5Gopen2\<close>\<close>

text \<open>
  The \<^verbatim>\<open>done:\<close> block of both functions: when the return value is negative and a group
  was created or opened, the group is closed, and a failing close pushes one more error.
\<close>

definition release_group ::
  "('w, 'l, 'g, 'i) H5_lib \<Rightarrow> H5E_error list \<Rightarrow> 'g \<Rightarrow> 'w \<Rightarrow> 'w api_result" where
  "release_group lib es grp w =
     (case H5G_close lib grp w of (r, w') \<Rightarrow>
        if r < 0 then api_fail (es @ [(H5E_SYM, H5E_CLOSEERROR, ''unable to release group'')]) w'
        else api_fail es w')"

definition register_group ::
  "('w, 'l, 'g, 'i) H5_lib \<Rightarrow> 'g \<Rightarrow> 'w \<Rightarrow> 'w api_result" where
  "register_group lib grp w =
     (case H5I_register lib H5I_GROUP grp True w of (new_id, w') \<Rightarrow>
        if new_id < 0
        then release_group lib [(H5E_ATOM, H5E_CANTREGISTER, ''unable to register group'')] grp w'
        else api_return new_id w')"

definition H5Gcreate2 ::
  "('w, 'l, 'g, 'i) H5_lib \<Rightarrow> hid_t \<Rightarrow> string option \<Rightarrow> hid_t \<Rightarrow> hid_t \<Rightarrow> hid_t \<Rightarrow> 'w
     \<Rightarrow> 'w api_result" where
  "H5Gcreate2 lib loc_id name lcpl_id gcpl_id gapl_id w =
     (if \<not> FUNC_ENTER_API lib w then api_fail [(H5E_FUNC, H5E_CANTINIT, ''library initialization failed'')] w
      else case H5G_loc lib loc_id w of
        None \<Rightarrow> api_fail [(H5E_ARGS, H5E_BADTYPE, ''not a location'')] w
      | Some loc \<Rightarrow>
        (case name of
          None \<Rightarrow> api_fail [(H5E_ARGS, H5E_BADVALUE, ''no name'')] w
        | Some [] \<Rightarrow> api_fail [(H5E_ARGS, H5E_BADVALUE, ''no name'')] w
        | Some nm \<Rightarrow>
          if lcpl_id \<noteq> H5P_DEFAULT \<and> \<not> H5P_isa_class lib lcpl_id H5P_LINK_CREATE w
          then api_fail [(H5E_ARGS, H5E_BADTYPE, ''not link creation property list'')] w
          else if gcpl_id \<noteq> H5P_DEFAULT \<and> \<not> H5P_isa_class lib gcpl_id H5P_GROUP_CREATE w
          then api_fail [(H5E_ARGS, H5E_BADTYPE, ''not group create property list'')] w
          else
            let lcpl_id' = (if lcpl_id = H5P_DEFAULT then H5P_LINK_CREATE_DEFAULT lib else lcpl_id);
                gcpl_id' = (if gcpl_id = H5P_DEFAULT then H5P_GROUP_CREATE_DEFAULT lib else gcpl_id)
            in case H5P_verify_apl_and_dxpl lib gapl_id H5P_CLS_GACC (H5AC_ind_read_dxpl_id lib) loc_id True w of
              None \<Rightarrow> api_fail [(H5E_SYM, H5E_CANTSET, ''can't set access and transfer property lists'')] w
            | Some (gapl_id', dxpl_id) \<Rightarrow>
              (case H5G__create_named lib loc nm lcpl_id' gcpl_id' gapl_id' dxpl_id w of
                (None, w') \<Rightarrow> api_fail [(H5E_SYM, H5E_CANTINIT, ''unable to create group'')] w'
              | (Some grp, w') \<Rightarrow> register_group lib grp w')))"

definition H5Gopen2 ::
  "('w, 'l, 'g, 'i) H5_lib \<Rightarrow> hid_t \<Rightarrow> string option \<Rightarrow> hid_t \<Rightarrow> 'w \<Rightarrow> 'w api_result" where
  "H5Gopen2 lib loc_id name gapl_id w =
     (if \<not> FUNC_ENTER_API lib w then api_fail [(H5E_FUNC, H5E_CANTINIT, ''library initialization failed'')] w
      else case H5G_loc lib loc_id w of
        None \<Rightarrow> api_fail [(H5E_ARGS, H5E_BADTYPE, ''not a location'')] w
      | Some loc \<Rightarrow>
        (case name of
          None \<Rightarrow> api_fail [(H5E_ARGS, H5E_BADVALUE, ''no name'')] w
        | Some [] \<Rightarrow> api_fail [(H5E_ARGS, H5E_BADVALUE, ''no name'')] w
        | Some nm \<Rightarrow>
          (case H5P_verify_apl_and_dxpl lib gapl_id H5P_CLS_GACC (H5AC_ind_read_dxpl_id lib) loc_id False w of
            None \<Rightarrow> api_fail [(H5E_SYM, H5E_CANTSET, ''can't set access and transfer property lists'')] w
          | Some (gapl_id', dxpl_id) \<Rightarrow>
            (case H5G__open_name lib loc nm gapl_id' dxpl_id w of
              (None, w') \<Rightarrow> api_fail [(H5E_SYM, H5E_CANTOPENOBJ, ''unable to open group'')] w'
            | (Some grp, w') \<Rightarrow> register_group lib grp w'))))"

subsection \<open>\<^verbatim>\<open>H5Gget_info\<close>\<close>

text \<open>
  The argument \<open>grp_info\<close> is the caller's pointer: \<open>None\<close> when it is null, and
  \<open>Some v\<close> when it points to a structure that holds \<open>v\<close>.  The second component of
  the result is what the pointer leads to when the function returns.
\<close>

definition H5Gget_info ::
  "('w, 'l, 'g, 'i) H5_lib \<Rightarrow> hid_t \<Rightarrow> 'i option \<Rightarrow> 'w \<Rightarrow> 'w api_result \<times> 'i option" where
  "H5Gget_info lib grp_id grp_info w =
     (if \<not> FUNC_ENTER_API lib w
      then (api_fail [(H5E_FUNC, H5E_CANTINIT, ''library initialization failed'')] w, grp_info)
      else
        let id_type = H5I_get_type lib grp_id w in
        if \<not> (H5I_GROUP = id_type \<or> H5I_FILE = id_type)
        then (api_fail [(H5E_ARGS, H5E_BADVALUE, ''invalid argument'')] w, grp_info)
        else case grp_info of
          None \<Rightarrow> (api_fail [(H5E_ARGS, H5E_BADVALUE, ''no info struct'')] w, grp_info)
        | Some v \<Rightarrow>
          (case H5G_loc lib grp_id w of
            None \<Rightarrow> (api_fail [(H5E_ARGS, H5E_BADTYPE, ''not a location'')] w, grp_info)
          | Some loc \<Rightarrow>
            (case H5G__obj_info lib loc v (H5AC_ind_read_dxpl_id lib) w of (r, v') \<Rightarrow>
               if r < 0
               then (api_fail [(H5E_SYM, H5E_CANTGET, ''can't retrieve group info'')] w, Some v')
               else (api_return SUCCEED w, Some v'))))"

subsection \<open>\<^verbatim>\<open>H5Grefresh\<close>\<close>

definition H5Grefresh :: "('w, 'l, 'g, 'i) H5_lib \<Rightarrow> hid_t \<Rightarrow> 'w \<Rightarrow> 'w api_result" where
  "H5Grefresh lib group_id w =
     (if \<not> FUNC_ENTER_API lib w then api_fail [(H5E_FUNC, H5E_CANTINIT, ''library initialization failed'')] w
      else case H5I_object_verify lib group_id H5I_GROUP w of
        None \<Rightarrow> api_fail [(H5E_ARGS, H5E_BADTYPE, ''not a group'')] w
      | Some grp \<Rightarrow>
        (case H5O_refresh_metadata lib group_id grp (H5AC_ind_read_dxpl_id lib) w of (r, w') \<Rightarrow>
           if r < 0 then api_fail [(H5E_SYM, H5E_CANTLOAD, ''unable to refresh group'')] w'
           else api_return SUCCEED w'))"

section \<open>The library behind \<^verbatim>\<open>H5G.c\<close>, from the specification\<close>

text \<open>
  Modelled from the spec: the reader side of the tick protocol (section 4.5 of the
  specification, with the index of section 4.3 and the pages of section 3), which in the
  library is \<^verbatim>\<open>H5O_refresh_metadata\<close> and the metadata cache below it; neither is among
  the source files.  An index maps a page address to the tick and the shadow-log offset of
  the page's latest generation.  A reader snapshot holds the last tick the reader
  observed, the index it adopted then, and the pages it has cached, each with the
  generation it was fetched at.
\<close>

type_synonym page = "8 word list"

record index_t =
  tick :: nat
  entries :: "nat \<rightharpoonup> nat \<times> nat"

record reader_snapshot =
  last_tick :: nat
  current_index :: index_t
  cached_pages :: "nat \<rightharpoonup> nat \<times> page"

text \<open>
  Modelled from the spec: the state of a reader process.  \<open>published\<close> is the index the
  writer published last, \<open>shadow_log\<close> maps an offset to the page content logged there,
  \<open>retained\<close> is the number of past indices the writer retains (the lag window \<open>K\<close> of
  section 4.3).  The identifier registry (\<^verbatim>\<open>H5I\<close>, not among the source files) maps an
  open identifier to its class and to the page address of its object: for a file, the
  address of the file's root group.  \<open>links\<close> is the namespace: the group at a page
  address, and a name in it, lead to the page address of the group linked there.
\<close>

record reader_world =
  published :: index_t
  shadow_log :: "nat \<rightharpoonup> page"
  retained :: nat
  snapshot :: reader_snapshot
  open_ids :: "hid_t \<rightharpoonup> H5I_type_t \<times> nat"
  plists :: "hid_t \<rightharpoonup> H5P_class_t"
  links :: "((nat \<times> string) \<times> nat) list"
  next_addr :: nat
  next_id :: hid_t

datatype swmr_error = PageNotFound | EvictedGeneration

text \<open>
  Modelled from the spec: \<open>refresh()\<close> of section 4.5.  It reads the published index;
  if its tick is newer than the last tick the reader observed, the reader adopts it and
  updates the tick, and cached pages are left as they are (they are remapped when they
  are next fetched).  A reader more than \<open>retained\<close> ticks behind reports
  \<open>EvictedGeneration\<close> (sections 4.3 and 8).
\<close>

definition refresh :: "reader_world \<Rightarrow> swmr_error + reader_world" where
  "refresh w =
     (let idx = published w; r = snapshot w in
      if last_tick r < tick idx then
        if retained w < tick idx - last_tick r then Inl EvictedGeneration
        else Inr (w\<lparr>snapshot := r\<lparr>last_tick := tick idx, current_index := idx\<rparr>\<rparr>)
      else Inr w)"

text \<open>
  Modelled from the spec: \<open>fetch(address)\<close> of section 4.1 for a reader.  The address is
  resolved through the reader's current index; a cached page of that generation is
  served from the cache, any other is read from the shadow log; an address that the index
  does not hold is \<open>PageNotFound\<close>.
\<close>

definition fetch :: "reader_world \<Rightarrow> nat \<Rightarrow> swmr_error + page" where
  "fetch w a =
     (case entries (current_index (snapshot w)) a of
        None \<Rightarrow> Inl PageNotFound
      | Some (t, off) \<Rightarrow>
        (case cached_pages (snapshot w) a of
           Some (g, pg) \<Rightarrow>
             if g = t then Inr pg
             else (case shadow_log w off of None \<Rightarrow> Inl PageNotFound | Some pg' \<Rightarrow> Inr pg')
         | None \<Rightarrow>
             (case shadow_log w off of None \<Rightarrow> Inl PageNotFound | Some pg' \<Rightarrow> Inr pg')))"

text \<open>
  Modelled from the spec: the callees of \<^verbatim>\<open>H5G.c\<close> over a reader's state.
  \<^verbatim>\<open>H5O_refresh_metadata\<close> is \<open>refresh\<close>; \<^verbatim>\<open>H5I_object_verify\<close> and \<^verbatim>\<open>H5I_get_type\<close>
  look the identifier up in the registry; \<^verbatim>\<open>H5G_loc\<close> takes a group identifier to the
  group and a file identifier to the root group of the file (the table at the head of
  \<^verbatim>\<open>H5G.c\<close>); creating a group links a fresh page address under the name, opening one
  follows the link (\<open>create_entry\<close> and \<open>resolve\<close> of section 6); the information of a
  group is the number of its links.
\<close>

definition spec_object_verify :: "hid_t \<Rightarrow> H5I_type_t \<Rightarrow> reader_world \<Rightarrow> nat option" where
  "spec_object_verify i ty w =
     (case open_ids w i of None \<Rightarrow> None | Some (t, a) \<Rightarrow> if t = ty then Some a else None)"

definition spec_get_type :: "hid_t \<Rightarrow> reader_world \<Rightarrow> H5I_type_t" where
  "spec_get_type i w = (case open_ids w i of None \<Rightarrow> H5I_BADID | Some (t, a) \<Rightarrow> t)"

definition spec_loc :: "hid_t \<Rightarrow> reader_world \<Rightarrow> nat option" where
  "spec_loc i w =
     (case open_ids w i of
        None \<Rightarrow> None
      | Some (t, a) \<Rightarrow> if t = H5I_FILE \<or> t = H5I_GROUP then Some a else None)"

definition spec_refresh_metadata ::
  "hid_t \<Rightarrow> nat \<Rightarrow> hid_t \<Rightarrow> reader_world \<Rightarrow> herr_t \<times> reader_world" where
  "spec_refresh_metadata i oloc dxpl w =
     (case refresh w of Inl e \<Rightarrow> (FAIL, w) | Inr w' \<Rightarrow> (SUCCEED, w'))"

definition spec_isa_class :: "hid_t \<Rightarrow> H5P_class_t \<Rightarrow> reader_world \<Rightarrow> bool" where
  "spec_isa_class i cls w = (plists w i = Some cls)"

definition spec_verify_apl_and_dxpl ::
  "hid_t \<Rightarrow> H5P_class_t \<Rightarrow> hid_t \<Rightarrow> hid_t \<Rightarrow> bool \<Rightarrow> reader_world \<Rightarrow> (hid_t \<times> hid_t) option" where
  "spec_verify_apl_and_dxpl apl cls dxpl loc_id coll w =
     (if apl = H5P_DEFAULT then Some (1, dxpl)
      else if spec_isa_class apl cls w then Some (apl, dxpl) else None)"

definition spec_create_named ::
  "nat \<Rightarrow> string \<Rightarrow> hid_t \<Rightarrow> hid_t \<Rightarrow> hid_t \<Rightarrow> hid_t \<Rightarrow> reader_world \<Rightarrow> nat option \<times> reader_world" where
  "spec_create_named loc nm lcpl gcpl gapl dxpl w =
     (case map_of (links w) (loc, nm) of
        Some a \<Rightarrow> (None, w)
      | None \<Rightarrow>
          (Some (next_addr w),
           w\<lparr>links := ((loc, nm), next_addr w) # links w, next_addr := next_addr w + 1\<rparr>))"

definition spec_open_name ::
  "nat \<Rightarrow> string \<Rightarrow> hid_t \<Rightarrow> hid_t \<Rightarrow> reader_world \<Rightarrow> nat option \<times> reader_world" where
  "spec_open_name loc nm gapl dxpl w = (map_of (links w) (loc, nm), w)"

definition spec_register :: "H5I_type_t \<Rightarrow> nat \<Rightarrow> bool \<Rightarrow> reader_world \<Rightarrow> hid_t \<times> reader_world" where
  "spec_register ty a app_ref w =
     (next_id w, w\<lparr>open_ids := (open_ids w)(next_id w \<mapsto> (ty, a)), next_id := next_id w + 1\<rparr>)"

definition spec_obj_info :: "nat \<Rightarrow> nat \<Rightarrow> hid_t \<Rightarrow> reader_world \<Rightarrow> herr_t \<times> nat" where
  "spec_obj_info loc v dxpl w = (SUCCEED, length (filter (\<lambda>l. fst (fst l) = loc) (links w)))"

definition spec_lib :: "(reader_world, nat, nat, nat) H5_lib" where
  "spec_lib =
     \<lparr>FUNC_ENTER_API = (\<lambda>w. True),
      H5G_loc = spec_loc,
      H5P_isa_class = spec_isa_class,
      H5P_LINK_CREATE_DEFAULT = 2,
      H5P_GROUP_CREATE_DEFAULT = 3,
      H5AC_ind_read_dxpl_id = 4,
      H5P_verify_apl_and_dxpl = spec_verify_apl_and_dxpl,
      H5G__create_named = spec_create_named,
      H5G__open_name = spec_open_name,
      H5I_register = spec_register,
      H5G_close = (\<lambda>grp w. (SUCCEED, w)),
      H5I_get_type = spec_get_type,
      H5G__obj_info = spec_obj_info,
      H5I_object_verify = spec_object_verify,
      H5O_refresh_metadata = spec_refresh_metadata\<rparr>"

text \<open>
  A reader that has a file open as identifier 10, the root group of the file (at page
  address 0) as identifier 11, and a dataspace as identifier 12.  The root group has the
  links \<open>a\<close> and \<open>b\<close>.  The reader last observed tick 1; the writer has published
  tick 3 and retains four indices.
\<close>

definition reader0 :: reader_world where
  "reader0 =
     \<lparr>published = \<lparr>tick = 3, entries = [0 \<mapsto> (3, 7)]\<rparr>,
      shadow_log = [5 \<mapsto> [1, 2], 7 \<mapsto> [3, 4]],
      retained = 4,
      snapshot = \<lparr>last_tick = 1, current_index = \<lparr>tick = 1, entries = [0 \<mapsto> (1, 5)]\<rparr>,
                  cached_pages = [0 \<mapsto> (1, [1, 2])]\<rparr>,
      open_ids = [10 \<mapsto> (H5I_FILE, 0), 11 \<mapsto> (H5I_GROUP, 0), 12 \<mapsto> (H5I_DATASPACE, 0)],
      plists = Map.empty,
      links = [((0, ''a''), 1), ((0, ''b''), 2)],
      next_addr = 3,
      next_id = 13\<rparr>"

section \<open>Verification\<close>

subsection \<open>The loops of \<^verbatim>\<open>init_matrix\<close>\<close>

declare init_matrix_cols.simps [simp del] init_matrix_rows.simps [simp del]

lemma init_matrix_cols_ok:
  "(\<And>c'. c \<le> c' \<Longrightarrow> c' < COLS \<Longrightarrow> cell_ok which base r c') \<Longrightarrow>
   init_matrix_cols mat which base r c =
     Inr (\<lambda>r' c'. if r' = r \<and> c \<le> c' \<and> c' < COLS then cell_val which base r c' else mat r' c')"
proof (induction mat which base r c rule: init_matrix_cols.induct)
  case (1 mat which base r c)
  show ?case
  proof (cases "c < COLS")
    case False
    then show ?thesis by (subst init_matrix_cols.simps) (auto intro!: ext)
  next
    case True
    have ok: "ucast which \<le> ucast UINT32_MAX - matrix_u base r c"
      using "1.prems"[of c] True by (simp add: cell_ok_def)
    have IH: "init_matrix_cols (mat(r := (mat r)(c := ucast (matrix_u base r c + ucast which)))) which base r (Suc c) =
      Inr (\<lambda>r' c'. if r' = r \<and> Suc c \<le> c' \<and> c' < COLS then cell_val which base r c'
                    else (mat(r := (mat r)(c := ucast (matrix_u base r c + ucast which)))) r' c')"
      using "1.prems" by (intro "1.IH"[OF True refl ok]) auto
    show ?thesis
      apply (subst init_matrix_cols.simps)
      apply (simp add: True ok IH Let_def del: fun_upd_apply)
      apply (intro ext)
      apply (use True in \<open>auto simp: cell_val_def\<close>)
      done
  qed
qed

lemma init_matrix_cols_fail:
  "c \<le> c' \<Longrightarrow> c' < COLS \<Longrightarrow> \<not> cell_ok which base r c' \<Longrightarrow>
   init_matrix_cols mat which base r c = Inl AssertFailed"
proof (induction mat which base r c rule: init_matrix_cols.induct)
  case (1 mat which base r c)
  have lt: "c < COLS" using "1.prems" by simp
  show ?case
  proof (cases "cell_ok which base r c")
    case False
    then show ?thesis using lt by (subst init_matrix_cols.simps) (simp add: cell_ok_def Let_def)
  next
    case True
    then have "c \<noteq> c'" using "1.prems" by auto
    then have le: "Suc c \<le> c'" using "1.prems" by simp
    have ok: "ucast which \<le> ucast UINT32_MAX - matrix_u base r c"
      using True by (simp add: cell_ok_def)
    have IH: "init_matrix_cols (mat(r := (mat r)(c := ucast (matrix_u base r c + ucast which)))) which base r (Suc c) =
      Inl AssertFailed"
      using "1.prems" by (intro "1.IH"[OF lt refl ok le]) auto
    show ?thesis
      by (subst init_matrix_cols.simps) (simp add: lt ok IH Let_def del: fun_upd_apply)
  qed
qed

lemma init_matrix_rows_ok:
  "(\<And>r' c'. r \<le> r' \<Longrightarrow> r' < ROWS \<Longrightarrow> c' < COLS \<Longrightarrow> cell_ok which base r' c') \<Longrightarrow>
   init_matrix_rows mat which base r =
     Inr (\<lambda>r' c'. if r \<le> r' \<and> r' < ROWS \<and> c' < COLS then cell_val which base r' c' else mat r' c')"
proof (induction mat which base r rule: init_matrix_rows.induct)
  case (1 mat which base r)
  show ?case
  proof (cases "r < ROWS")
    case False
    then show ?thesis by (subst init_matrix_rows.simps) (auto intro!: ext)
  next
    case True
    define mat' :: matrix where
      "mat' = (\<lambda>r' c'. if r' = r \<and> 0 \<le> c' \<and> c' < COLS then cell_val which base r c' else mat r' c')"
    have cols: "init_matrix_cols mat which base r 0 = Inr mat'"
      unfolding mat'_def using "1.prems" True by (intro init_matrix_cols_ok) auto
    have IH: "init_matrix_rows mat' which base (Suc r) =
      Inr (\<lambda>r' c'. if Suc r \<le> r' \<and> r' < ROWS \<and> c' < COLS then cell_val which base r' c' else mat' r' c')"
      using "1.prems" by (intro "1.IH"[OF True cols]) auto
    show ?thesis
      apply (subst init_matrix_rows.simps)
      apply (simp add: True cols IH)
      apply (intro ext)
      apply (use True in \<open>auto simp: mat'_def\<close>)
      done
  qed
qed

lemma init_matrix_rows_fail:
  "r \<le> r' \<Longrightarrow> r' < ROWS \<Longrightarrow> c' < COLS \<Longrightarrow> \<not> cell_ok which base r' c' \<Longrightarrow>
   init_matrix_rows mat which base r = Inl AssertFailed"
proof (induction mat which base r rule: init_matrix_rows.induct)
  case (1 mat which base r)
  have lt: "r < ROWS" using "1.prems" by simp
  show ?case
  proof (cases "init_matrix_cols mat which base r 0")
    case (Inl e)
    have "e = AssertFailed"
    proof (cases "\<forall>c<COLS. cell_ok which base r c")
      case True
      then have "\<exists>m. init_matrix_cols mat which base r 0 = Inr m"
        using init_matrix_cols_ok[of 0 which base r mat] by simp
      with Inl show ?thesis by simp
    next
      case False
      then obtain c where "c < COLS" "\<not> cell_ok which base r c" by auto
      then have "init_matrix_cols mat which base r 0 = Inl AssertFailed"
        by (intro init_matrix_cols_fail[of 0 c]) auto
      with Inl show ?thesis by simp
    qed
    with Inl lt show ?thesis by (subst init_matrix_rows.simps) simp
  next
    case (Inr mat')
    have "r \<noteq> r'"
    proof
      assume "r = r'"
      then have "init_matrix_cols mat which base r 0 = Inl AssertFailed"
        using "1.prems" by (intro init_matrix_cols_fail[of 0 c']) auto
      with Inr show False by simp
    qed
    then have "Suc r \<le> r'" using "1.prems" by simp
    then have "init_matrix_rows mat' which base (Suc r) = Inl AssertFailed"
      using "1.prems" by (intro "1.IH"[OF lt Inr]) auto
    with Inr lt show ?thesis by (subst init_matrix_rows.simps) simp
  qed
qed

lemma init_matrix_ok:
  "(\<And>r c. r < ROWS \<Longrightarrow> c < COLS \<Longrightarrow> cell_ok which base r c) \<Longrightarrow>
   init_matrix mat which base =
     Inr (\<lambda>r c. if r < ROWS \<and> c < COLS then cell_val which base r c else mat r c)"
  unfolding init_matrix_def by (subst init_matrix_rows_ok) auto

lemma init_matrix_fail:
  "r < ROWS \<Longrightarrow> c < COLS \<Longrightarrow> \<not> cell_ok which base r c \<Longrightarrow>
   init_matrix mat which base = Inl AssertFailed"
  unfolding init_matrix_def by (rule init_matrix_rows_fail[of 0 r c]) auto

subsection \<open>Word arithmetic against exact arithmetic\<close>

lemma spec_value_ge: "i \<le> spec_value i j" "j \<le> spec_value i j"
proof -
  have sq: "(i + 1) * (i + 1) - 1 - j = i * i + 2 * i - j"
    by (simp add: algebra_simps)
  have jj: "j \<le> j * j" by (cases j) auto
  have "i \<le> spec_value i j \<and> j \<le> spec_value i j"
  proof (cases "j \<le> i")
    case True
    then have "spec_value i j = i * i + 2 * i - j"
      by (simp only: spec_value_def sq if_True)
    then show ?thesis using True by arith
  next
    case False
    then have "spec_value i j = j * j + i"
      by (simp only: spec_value_def if_False)
    then show ?thesis using jj by arith
  qed
  then show "i \<le> spec_value i j" "j \<le> spec_value i j" by simp_all
qed

lemma u_of_words:
  fixes i j :: hsize_t
  assumes "spec_value (unat i) (unat j) < 2 ^ 64"
  shows "unat (if j \<le> i then (i + 1) * (i + 1) - 1 - j else j * j + i) = spec_value (unat i) (unat j)"
proof -
  let ?I = "unat i" and ?J = "unat j"
  have i: "i = of_nat ?I" and j: "j = of_nat ?J" by simp_all
  show ?thesis
  proof (cases "j \<le> i")
    case True
    then have le: "?J \<le> ?I" by (simp add: word_le_nat_alt)
    then have le2: "?J \<le> (?I + 1) * (?I + 1) - 1" by (simp add: algebra_simps)
    have a: "(of_nat ((?I + 1) * (?I + 1) - 1 - ?J) :: hsize_t) = of_nat ((?I + 1) * (?I + 1) - 1) - of_nat ?J"
      using le2 by (rule of_nat_diff)
    have b: "(of_nat ((?I + 1) * (?I + 1) - 1) :: hsize_t) = of_nat ((?I + 1) * (?I + 1)) - of_nat 1"
      by (rule of_nat_diff) simp
    have c: "(of_nat ((?I + 1) * (?I + 1)) :: hsize_t) = (i + 1) * (i + 1)"
      by (simp add: algebra_simps)
    have "(i + 1) * (i + 1) - 1 - j = (of_nat ((?I + 1) * (?I + 1) - 1 - ?J) :: hsize_t)"
      unfolding a b c by simp
    then have "unat ((i + 1) * (i + 1) - 1 - j) = ((?I + 1) * (?I + 1) - 1 - ?J) mod 2 ^ 64"
      by (simp only: unat_of_nat) simp
    also have "\<dots> = (?I + 1) * (?I + 1) - 1 - ?J"
      using assms le by (simp add: spec_value_def)
    finally show ?thesis using True le by (simp add: spec_value_def)
  next
    case False
    then have gt: "\<not> ?J \<le> ?I" by (simp add: word_le_nat_alt)
    have "j * j + i = (of_nat (?J * ?J + ?I) :: hsize_t)" by simp
    then have "unat (j * j + i) = (?J * ?J + ?I) mod 2 ^ 64"
      by (simp only: unat_of_nat) simp
    also have "\<dots> = ?J * ?J + ?I"
      using assms gt by (simp add: spec_value_def)
    finally show ?thesis using False gt by (simp add: spec_value_def)
  qed
qed

lemma coord_exact:
  fixes b :: hsize_t
  assumes "unat b + n < 2 ^ 64"
  shows "unat (b + of_nat n) = unat b + n"
proof -
  have "b + of_nat n = (of_nat (unat b + n) :: hsize_t)" by simp
  then have "unat (b + of_nat n) = (unat b + n) mod 2 ^ 64"
    by (simp only: unat_of_nat) simp
  then show ?thesis using assms by simp
qed

lemma matrix_u_exact:
  assumes "spec_value (unat (row base) + r) (unat (col base) + c) < 2 ^ 64"
  shows "unat (matrix_u base r c) = spec_value (unat (row base) + r) (unat (col base) + c)"
proof -
  have "unat (row base) + r < 2 ^ 64" "unat (col base) + c < 2 ^ 64"
    using assms spec_value_ge(1)[of "unat (row base) + r" "unat (col base) + c"]
      spec_value_ge(2)[of "unat (col base) + c" "unat (row base) + r"] by simp_all
  then have ij: "unat (row base + of_nat r) = unat (row base) + r"
    "unat (col base + of_nat c) = unat (col base) + c"
    by (simp_all add: coord_exact)
  show ?thesis
    unfolding matrix_u_def Let_def
    using u_of_words[of "row base + of_nat r" "col base + of_nat c"] assms
    by (simp only: ij)
qed

lemma cell_exact:
  fixes u :: hsize_t and which :: uint32_t
  assumes "unat u + unat which \<le> 4294967295"
  shows "ucast which \<le> ucast UINT32_MAX - u"
    and "unat (ucast (u + ucast which) :: uint32_t) = unat u + unat which"
proof -
  have m: "unat (ucast UINT32_MAX :: hsize_t) = 4294967295"
    by (simp add: UINT32_MAX_def)
  have ule: "u \<le> ucast UINT32_MAX"
    using assms by (simp add: word_le_nat_alt m)
  have w: "unat (ucast which :: hsize_t) = unat which"
    by (simp add: unsigned_ucast_eq take_bit_nat_eq_self unsigned_less[of which, simplified] order.strict_trans[OF unsigned_less[of which, simplified]])
  have "unat (ucast UINT32_MAX - u) = 4294967295 - unat u"
    using ule by (simp add: unat_sub m)
  then show "ucast which \<le> ucast UINT32_MAX - u"
    using assms by (simp add: word_le_nat_alt w)
  have "unat (u + ucast which) = unat u + unat which"
    using assms by (simp add: unat_word_ariths w)
  then show "unat (ucast (u + ucast which) :: uint32_t) = unat u + unat which"
    using assms by (simp add: unsigned_ucast_eq take_bit_nat_eq_self)
qed

lemma spec_value_bound:
  assumes "a \<le> n" "b \<le> n"
  shows "spec_value a b \<le> (n + 1) * (n + 1) - 1"
proof -
  have aa: "(a + 1) * (a + 1) \<le> (n + 1) * (n + 1)"
    using assms by (intro mult_le_mono) simp_all
  have bb: "b * b \<le> n * n"
    using assms by (intro mult_le_mono) simp_all
  have nn: "(n + 1) * (n + 1) - 1 = n * n + 2 * n" by (simp add: algebra_simps)
  show ?thesis
  proof (cases "b \<le> a")
    case True
    then have "spec_value a b = (a + 1) * (a + 1) - 1 - b"
      by (simp only: spec_value_def if_True)
    then show ?thesis using aa by arith
  next
    case False
    then have "spec_value a b = b * b + a"
      by (simp only: spec_value_def if_False)
    then show ?thesis using bb assms unfolding nn by arith
  qed
qed

subsection \<open>Claims on the matrix contents\<close>

text \<open>
  Claim C1, as amended.  Whenever the exact value of every element of the chunk, plus the
  per-dataset offset \<open>which\<close>, is at most \<^verbatim>\<open>UINT32_MAX\<close>, \<^verbatim>\<open>init_matrix\<close> completes
  (no assertion fails) and the element at in-chunk position \<open>(r, c)\<close>, global coordinates
  \<open>i = base.row + r\<close> and \<open>j = base.col + c\<close>, is \<open>(i+1)\<^sup>2 - 1 - j\<close> when \<open>j \<le> i\<close> and
  \<open>j\<^sup>2 + i\<close> when \<open>j > i\<close>, plus \<open>which\<close>, over the natural numbers.
\<close>

theorem init_matrix_exact:
  assumes "\<forall>r<ROWS. \<forall>c<COLS.
     spec_value (unat (row base) + r) (unat (col base) + c) + unat which \<le> unat UINT32_MAX"
  shows "\<exists>mat'. init_matrix mat which base = Inr mat' \<and>
     (\<forall>r<ROWS. \<forall>c<COLS.
        unat (mat' r c) = spec_value (unat (row base) + r) (unat (col base) + c) + unat which)"
proof -
  have m: "unat UINT32_MAX = 4294967295" by (simp add: UINT32_MAX_def)
  have ex: "unat (matrix_u base r c) = spec_value (unat (row base) + r) (unat (col base) + c)"
    if "r < ROWS" "c < COLS" for r c
  proof (rule matrix_u_exact)
    have "spec_value (unat (row base) + r) (unat (col base) + c) + unat which \<le> 4294967295"
      using assms that by (simp add: m)
    then show "spec_value (unat (row base) + r) (unat (col base) + c) < 2 ^ 64" by simp
  qed
  have fits: "unat (matrix_u base r c) + unat which \<le> 4294967295"
    if "r < ROWS" "c < COLS" for r c
    using assms that ex[OF that] by (simp add: m)
  have ok: "cell_ok which base r c" if "r < ROWS" "c < COLS" for r c
    unfolding cell_ok_def by (rule cell_exact(1)[OF fits[OF that]])
  have "init_matrix mat which base =
     Inr (\<lambda>r c. if r < ROWS \<and> c < COLS then cell_val which base r c else mat r c)"
    by (rule init_matrix_ok) (rule ok)
  moreover have "unat (cell_val which base r c) =
      spec_value (unat (row base) + r) (unat (col base) + c) + unat which"
    if "r < ROWS" "c < COLS" for r c
    unfolding cell_val_def using cell_exact(2)[OF fits[OF that]] ex[OF that] by simp
  ultimately show ?thesis by simp
qed

text \<open>
  The amended claim at the first chunk of dataset 0: the element at \<open>(3, 5)\<close> is
  \<open>5\<^sup>2 + 3\<close> and the element at \<open>(5, 3)\<close> is \<open>6\<^sup>2 - 1 - 3\<close>.
\<close>

theorem init_matrix_exact_witness:
  "\<exists>mat'. init_matrix (\<lambda>_ _. 0) 0 \<lparr>row = 0, col = 0\<rparr> = Inr mat' \<and>
     unat (mat' 3 5) = 28 \<and> unat (mat' 5 3) = 32"
proof -
  have "spec_value r c \<le> 4294967295" if "r < ROWS" "c < COLS" for r c
    using spec_value_bound[of r 511 c] that by (simp add: ROWS_def COLS_def)
  then have "\<forall>r<ROWS. \<forall>c<COLS.
     spec_value (unat (row \<lparr>row = 0, col = 0\<rparr>) + r) (unat (col \<lparr>row = 0, col = 0\<rparr>) + c)
       + unat (0 :: uint32_t) \<le> unat UINT32_MAX"
    by (simp add: UINT32_MAX_def)
  from init_matrix_exact[OF this, of "\<lambda>_ _. 0"]
  obtain mat' where m: "init_matrix (\<lambda>_ _. 0) 0 \<lparr>row = 0, col = 0\<rparr> = Inr mat'"
    and v: "\<forall>r<ROWS. \<forall>c<COLS. unat (mat' r c) = spec_value r c"
    by auto
  have "unat (mat' 3 5) = 28" "unat (mat' 5 3) = 32"
    using v by (simp_all add: ROWS_def COLS_def spec_value_def)
  with m show ?thesis by blast
qed

text \<open>
  Claim C1 as stated, for every base offset, fails.  At base \<open>(65536, 0)\<close>, the chunk
  of write step 256, the exact value of the first element is \<open>65537\<^sup>2 - 1 = 4295098368\<close>,
  which no \<^verbatim>\<open>uint32_t\<close> holds.  The subtraction \<^verbatim>\<open>UINT32_MAX - u\<close> of the assertion wraps
  around in \<^verbatim>\<open>hsize_t\<close>, the assertion passes, and the element stored is the low 32 bits,
  131072.
\<close>

theorem init_matrix_truncates:
  "\<exists>mat'. init_matrix (\<lambda>_ _. 0) 0 \<lparr>row = 65536, col = 0\<rparr> = Inr mat' \<and>
     unat (mat' 0 0) = 131072 \<and>
     spec_value (65536 + 0) (0 + 0) + 0 = 4295098368"
proof -
  have "cell_ok 0 \<lparr>row = 65536, col = 0\<rparr> r c" for r c
    by (simp add: cell_ok_def)
  then have "init_matrix (\<lambda>_ _. 0) 0 \<lparr>row = 65536, col = 0\<rparr> =
     Inr (\<lambda>r c. if r < ROWS \<and> c < COLS then cell_val 0 \<lparr>row = 65536, col = 0\<rparr> r c else 0)"
    by (rule init_matrix_ok)
  moreover have "unat (cell_val 0 \<lparr>row = 65536, col = 0\<rparr> 0 0) = 131072"
    by (simp add: cell_val_def matrix_u_def)
  moreover have "spec_value (65536 + 0) (0 + 0) + 0 = 4295098368"
    by (simp add: spec_value_def)
  ultimately show ?thesis by (simp add: ROWS_def COLS_def)
qed

text \<open>
  Claim C9.  For a dataset index \<open>which \<le> 4\<close> and a base offset such that every global
  coordinate the loops reach is at most 65534, \<open>u + which\<close> fits in 32 bits at every
  cell: the assertion \<^verbatim>\<open>UINT32_MAX - u >= which\<close> holds, so \<^verbatim>\<open>init_matrix\<close> completes,
  and the cast to \<^verbatim>\<open>uint32_t\<close> loses nothing.
\<close>

theorem init_matrix_fits:
  assumes "unat which \<le> 4"
    and "\<forall>r<ROWS. unat (row base + of_nat r) \<le> 65534"
    and "\<forall>c<COLS. unat (col base + of_nat c) \<le> 65534"
  shows "\<exists>mat'. init_matrix mat which base = Inr mat' \<and>
     (\<forall>r<ROWS. \<forall>c<COLS.
        unat (matrix_u base r c) + unat which \<le> unat UINT32_MAX \<and>
        ucast which \<le> (ucast UINT32_MAX :: hsize_t) - matrix_u base r c \<and>
        unat (mat' r c) = unat (matrix_u base r c) + unat which)"
proof -
  have fits: "unat (matrix_u base r c) + unat which \<le> 4294967295"
    if "r < ROWS" "c < COLS" for r c
  proof -
    let ?i = "row base + of_nat r" and ?j = "col base + of_nat c"
    have i: "unat ?i \<le> 65534" and j: "unat ?j \<le> 65534"
      using assms that by simp_all
    have b: "spec_value (unat ?i) (unat ?j) \<le> 4294836224"
      using spec_value_bound[OF i j] by simp
    then have "unat (if ?j \<le> ?i then (?i + 1) * (?i + 1) - 1 - ?j else ?j * ?j + ?i)
        = spec_value (unat ?i) (unat ?j)"
      by (intro u_of_words) simp
    then have "unat (matrix_u base r c) = spec_value (unat ?i) (unat ?j)"
      by (simp add: matrix_u_def Let_def)
    then show ?thesis using b assms(1) by simp
  qed
  have ok: "cell_ok which base r c" if "r < ROWS" "c < COLS" for r c
    unfolding cell_ok_def by (rule cell_exact(1)[OF fits[OF that]])
  have "init_matrix mat which base =
     Inr (\<lambda>r c. if r < ROWS \<and> c < COLS then cell_val which base r c else mat r c)"
    by (rule init_matrix_ok) (rule ok)
  moreover have "unat (cell_val which base r c) = unat (matrix_u base r c) + unat which"
    if "r < ROWS" "c < COLS" for r c
    unfolding cell_val_def by (rule cell_exact(2)[OF fits[OF that]])
  moreover have "unat UINT32_MAX = 4294967295" by (simp add: UINT32_MAX_def)
  ultimately show ?thesis using fits ok by (simp add: cell_ok_def)
qed

text \<open>
  Claim C9 at dataset 4 and base \<open>(65024, 65023)\<close>, whose last cell has the coordinates
  \<open>(65279, 65534)\<close>: the element stored there is \<open>65534\<^sup>2 + 65279 + 4\<close>.
\<close>

theorem init_matrix_fits_witness:
  "\<exists>mat'. init_matrix (\<lambda>_ _. 0) 4 \<lparr>row = 65024, col = 65023\<rparr> = Inr mat' \<and>
     unat (mat' 255 511) = 4294770439"
proof -
  have r: "\<forall>r<ROWS. unat (row \<lparr>row = 65024, col = 65023\<rparr> + of_nat r) \<le> 65534"
    by (simp add: ROWS_def coord_exact)
  have c: "\<forall>c<COLS. unat (col \<lparr>row = 65024, col = 65023\<rparr> + of_nat c) \<le> 65534"
    by (simp add: COLS_def coord_exact)
  have w: "unat (4 :: uint32_t) \<le> 4" by simp
  from init_matrix_fits[OF w r c, of "\<lambda>_ _. 0"]
  obtain mat' where m: "init_matrix (\<lambda>_ _. 0) 4 \<lparr>row = 65024, col = 65023\<rparr> = Inr mat'"
    and v: "\<forall>r<ROWS. \<forall>c<COLS.
       unat (mat' r c) = unat (matrix_u \<lparr>row = 65024, col = 65023\<rparr> r c) + unat (4 :: uint32_t)"
    by auto
  have "unat (mat' 255 511) = 4294770439"
    using v by (simp add: ROWS_def COLS_def matrix_u_def)
  with m show ?thesis by blast
qed

subsection \<open>The command line: \<^verbatim>\<open>strtoul\<close> on decimal numerals\<close>

declare state_init_loop.simps [simp del]

lemma decimal_digit_char:
  "d < 10 \<Longrightarrow> (of_char (char_of (48 + d)) :: nat) = 48 + d"
  by simp

lemma decimal_chars: "c \<in> set (decimal n) \<Longrightarrow> 48 \<le> (of_char c :: nat) \<and> (of_char c :: nat) \<le> 57"
proof (induction n rule: decimal.induct)
  case (1 n)
  show ?case
  proof (cases "n < 10")
    case True
    then have "c = char_of (48 + n)" using "1.prems" by (subst (asm) decimal.simps) simp
    then show ?thesis using True by simp
  next
    case False
    then have "c \<in> set (decimal (n div 10)) \<or> c = char_of (48 + n mod 10)"
      using "1.prems" by (subst (asm) decimal.simps) auto
    then show ?thesis
    proof
      assume "c \<in> set (decimal (n div 10))"
      then show ?thesis using "1.IH"[OF False] by simp
    next
      assume "c = char_of (48 + n mod 10)"
      moreover have "n mod 10 < 10" by simp
      ultimately show ?thesis by (simp add: decimal_digit_char)
    qed
  qed
qed

lemma decimal_Cons: "\<exists>c cs. decimal n = c # cs \<and> (c = CHR ''0'' \<longleftrightarrow> n = 0)"
proof (induction n rule: decimal.induct)
  case (1 n)
  show ?case
  proof (cases "n < 10")
    case True
    have "char_of (48 + n) = CHR ''0'' \<longleftrightarrow> n = 0"
    proof
      assume "char_of (48 + n) = CHR ''0''"
      then have "(of_char (char_of (48 + n)) :: nat) = of_char CHR ''0''" by simp
      then show "n = 0" using True by (simp add: decimal_digit_char)
    qed (simp add: char_of_eq_iff)
    then show ?thesis using True by (subst decimal.simps) simp
  next
    case False
    obtain c cs where "decimal (n div 10) = c # cs" "c = CHR ''0'' \<longleftrightarrow> n div 10 = 0"
      using "1.IH"[OF False] by auto
    then show ?thesis using False by (subst decimal.simps) auto
  qed
qed

lemma strtoul_digits_decimal: "strtoul_digits 10 (decimal n) = n"
proof (induction n rule: decimal.induct)
  case (1 n)
  show ?case
  proof (cases "n < 10")
    case True
    then show ?thesis
      by (subst decimal.simps) (simp add: strtoul_digits_def digit_of_def Let_def)
  next
    case False
    have "n mod 10 < 10" by simp
    then have d: "digit_of (char_of (48 + n mod 10)) = n mod 10"
      unfolding digit_of_def Let_def by (simp only: decimal_digit_char) simp
    have "strtoul_digits 10 (decimal (n div 10) @ [char_of (48 + n mod 10)]) =
        strtoul_digits 10 (decimal (n div 10)) * 10 + digit_of (char_of (48 + n mod 10))"
      by (simp add: strtoul_digits_def)
    then show ?thesis using False "1.IH"[OF False] d by (subst decimal.simps) simp
  qed
qed

lemma digit_of_decimal: "c \<in> set (decimal n) \<Longrightarrow> digit_of c < 10"
  using decimal_chars[of c n] by (auto simp: digit_of_def Let_def)

lemma strtoul_decimal:
  "strtoul (decimal n) =
     (if n \<le> ULONG_MAX then (of_nat n, [], False) else (of_nat ULONG_MAX, [], True))"
proof (cases "n = 0")
  case True
  then show ?thesis
    by (simp add: decimal.simps strtoul_def strtoul_sign_def strtoul_base_def hex_prefix_def
        isspace_def digit_of_def strtoul_digits_def Let_def ULONG_MAX_def char_of_eq_iff)
next
  case False
  obtain c cs where d: "decimal n = c # cs" and c0: "c \<noteq> CHR ''0''"
    using decimal_Cons[of n] False by auto
  have cr: "48 \<le> (of_char c :: nat)" "(of_char c :: nat) \<le> 57"
    using decimal_chars[of c n] d by simp_all
  have nsp: "\<not> isspace c" using cr by (auto simp: isspace_def)
  have nsg: "c \<noteq> CHR ''-''" "c \<noteq> CHR ''+''" using cr by auto
  have s1: "dropWhile isspace (c # cs) = c # cs" using nsp by simp
  have s2: "strtoul_sign (c # cs) = (False, c # cs)" using nsg by (simp add: strtoul_sign_def)
  have s3: "strtoul_base (c # cs) = (10, c # cs)"
    using c0 by (auto simp: strtoul_base_def hex_prefix_def split: list.splits)
  have all: "\<forall>x\<in>set (c # cs). digit_of x < 10"
    using digit_of_decimal[of _ n] d by simp
  have tw: "takeWhile (\<lambda>c. digit_of c < 10) (c # cs) = c # cs"
    using all by (intro takeWhile_eq_all_conv[THEN iffD2]) 
  have dw: "dropWhile (\<lambda>c. digit_of c < 10) (c # cs) = []"
    using all by (intro dropWhile_eq_Nil_conv[THEN iffD2])
  have v: "strtoul_digits 10 (c # cs) = n"
    using strtoul_digits_decimal[of n] d by simp
  show ?thesis
    unfolding strtoul_def d s1 s2 s3 prod.case Let_def tw dw v
    by simp
qed

lemma state_init_loop_step:
  "getopt optstring st = (Some (ch, a), st') \<Longrightarrow>
   state_init_loop s v st =
     (case handle_option s v ch a of Inl e \<Rightarrow> Inl e | Inr (s', v') \<Rightarrow> state_init_loop s' v' st')"
  by (subst state_init_loop.simps) simp

lemma state_init_loop_end:
  "getopt optstring st = (None, st') \<Longrightarrow> state_init_loop s v st = Inr (s, v, getopt_left st')"
  by (subst state_init_loop.simps) simp

lemma opt_lookup_optstring:
  "opt_lookup optstring ch =
     (if ch \<in> set ''SWcq'' then Some False else if ch \<in> set ''dnu'' then Some True else None)"
  by (auto simp: optstring_def)

lemma getopt_flag:
  "ch \<in> set ''SWcq'' \<Longrightarrow>
   getopt optstring ([], [CHR ''-'', ch] # args, passed) = (Some (ch, []), ([], args, passed))"
  by (auto simp: getopt_letter_def opt_lookup_optstring)

lemma getopt_with_arg:
  "ch \<in> set ''dnu'' \<Longrightarrow>
   getopt optstring ([], [CHR ''-'', ch] # a # args, passed) = (Some (ch, a), ([], args, passed))"
  by (auto simp: getopt_letter_def opt_lookup_optstring)

lemma getopt_missing_arg:
  "ch \<in> set ''dnu'' \<Longrightarrow>
   getopt optstring ([], [[CHR ''-'', ch]], passed) = (Some (CHR ''?'', []), ([], [], passed))"
  by (auto simp: getopt_letter_def opt_lookup_optstring)

lemma getopt_unknown:
  assumes "ch \<notin> set ''SWcdnqu''" "ch = CHR ''-'' \<longrightarrow> cl \<noteq> []"
  shows "getopt optstring ([], (CHR ''-'' # ch # cl) # args, passed) =
     (Some (CHR ''?'', []), (cl, args, passed))"
  using assms by (auto simp: getopt_letter_def opt_lookup_optstring)

text \<open>
  An argument that is not an option is passed over, wherever it stands: the options
  after it are read as if it were not there, and it is counted among the arguments left.
\<close>

lemma getopt_passes_over:
  assumes "a = [] \<or> hd a \<noteq> CHR ''-'' \<or> a = ''-''"
  shows "getopt optstring ([], a # args, passed) = getopt optstring ([], args, passed @ [a])"
  using assms by (cases a) (auto split: list.splits)

lemma option_n_decimal:
  "n \<le> 4294967295 \<Longrightarrow> option_n s (decimal n) = Inr (s\<lparr>nsteps := of_nat n\<rparr>)"
proof -
  assume n: "n \<le> 4294967295"
  then have "strtoul (decimal n) = (of_nat n, [], False)"
    by (simp add: strtoul_decimal ULONG_MAX_def)
  moreover have "decimal n \<noteq> []" using decimal_Cons[of n] by auto
  moreover have "\<not> UINT_MAX < (of_nat n :: ulong)"
    using n by (simp add: UINT_MAX_def word_less_nat_alt unat_of_nat)
  moreover have "(ucast (of_nat n :: ulong) :: 32 word) = of_nat n"
  proof (rule word_unat_eq_iff[THEN iffD2])
    show "unat (ucast (of_nat n :: ulong) :: 32 word) = unat (of_nat n :: 32 word)"
      using n by (simp add: unsigned_ucast_eq unat_of_nat take_bit_nat_eq_self)
  qed
  ultimately show ?thesis by (simp add: option_n_def)
qed

lemma option_n_too_large:
  assumes "4294967295 < n"
  shows "\<exists>msg. option_n s (decimal n) = Inl (ExitFailure msg)"
proof (cases "n \<le> ULONG_MAX")
  case True
  then have "unat (of_nat n :: ulong) = n"
    by (simp add: unat_of_nat ULONG_MAX_def)
  then have "UINT_MAX < (of_nat n :: ulong)"
    using assms by (simp add: UINT_MAX_def word_less_nat_alt)
  then show ?thesis using True by (simp add: option_n_def strtoul_decimal)
next
  case False
  then show ?thesis by (simp add: option_n_def strtoul_decimal)
qed

lemma option_n_not_numeric:
  assumes "a = [] \<or> fst (snd (strtoul a)) \<noteq> []"
  shows "\<exists>msg. option_n s a = Inl (ExitFailure msg)"
proof (cases "a = []")
  case True
  then show ?thesis
    by (simp add: option_n_def strtoul_def strtoul_sign_def strtoul_base_def hex_prefix_def)
next
  case False
  then show ?thesis using assms
    by (cases "strtoul a") (auto simp: option_n_def)
qed

lemma option_u_decimal:
  assumes "m < 2 ^ 64"
  shows "option_u s (decimal m) =
     Inr (s\<lparr>update_interval :=
            \<lparr>tv_sec = int (m div 1000), tv_nsec = int (m * 1000000 mod 2 ^ 64 mod 1000000000)\<rparr>\<rparr>)"
proof -
  have st: "strtoul (decimal m) = (of_nat m, [], False)"
    using assms by (simp add: strtoul_decimal ULONG_MAX_def)
  have um: "unat (of_nat m :: ulong) = m"
    using assms by (simp add: unat_of_nat)
  have sec: "uint ((of_nat m :: ulong) div 1000) = int (m div 1000)"
    by (simp add: uint_nat unat_div um)
  have "unat ((of_nat m :: ulong) * 1000000) = m * 1000000 mod 2 ^ 64"
    by (simp add: unat_word_ariths um)
  then have nsec: "uint (((of_nat m :: ulong) * 1000000) mod 1000000000) =
      int (m * 1000000 mod 2 ^ 64 mod 1000000000)"
    by (simp add: uint_nat unat_mod)
  show ?thesis
    unfolding option_u_def st prod.case sec nsec by simp
qed

text \<open>
  For every \<open>m < 18446744073710\<close> the product \<^verbatim>\<open>millis * 1000000UL\<close> does not wrap, and
  the interval that \<^verbatim>\<open>-u\<close> sets is exactly \<open>m\<close> milliseconds.
\<close>

lemma update_interval_exact:
  assumes "m < 18446744073710"
  shows "\<exists>s'. option_u s (decimal m) = Inr s' \<and>
     tv_sec (update_interval s') * 1000000000 + tv_nsec (update_interval s') = int m * 1000000"
proof -
  have lt: "m * 1000000 < 2 ^ 64" using assms by simp
  have r: "m * 1000000 mod 1000000000 = (m mod 1000) * 1000000"
    using mult_mod_left[of m 1000 1000000] by simp
  define q where "q = m div 1000"
  define k where "k = m mod 1000"
  have m: "m = q * 1000 + k" by (simp add: q_def k_def)
  have "m * 1000000 = q * 1000000000 + k * 1000000"
    by (subst m) (simp add: algebra_simps)
  then have eq: "m div 1000 * 1000000000 + (m mod 1000) * 1000000 = m * 1000000"
    by (simp only: q_def k_def)
  have ml: "m * 1000000 mod 2 ^ 64 = m * 1000000" using lt by simp
  have e: "m div 1000 * 1000000000 + m * 1000000 mod 2 ^ 64 mod 1000000000 = m * 1000000"
    unfolding ml r by (rule eq)
  have "int (m div 1000) * 1000000000 + int (m * 1000000 mod 2 ^ 64 mod 1000000000) =
      int (m div 1000 * 1000000000 + m * 1000000 mod 2 ^ 64 mod 1000000000)"
    by simp
  also have "\<dots> = int m * 1000000" unfolding e by simp
  finally have i: "int (m div 1000) * 1000000000 + int (m * 1000000 mod 2 ^ 64 mod 1000000000) =
      int m * 1000000" .
  have "m < 2 ^ 64" using assms by simp
  then show ?thesis using i by (simp add: option_u_decimal)
qed

lemma option_u_exact:
  assumes "m < 18446744073710"
  shows "option_u s (decimal m) =
     Inr (s\<lparr>update_interval :=
            \<lparr>tv_sec = int (m div 1000), tv_nsec = int (m mod 1000) * 1000000\<rparr>\<rparr>)"
proof -
  have lt: "m * 1000000 < 2 ^ 64" using assms by simp
  have ml: "m * 1000000 mod 2 ^ 64 = m * 1000000" using lt by simp
  have r: "m * 1000000 mod 1000000000 = (m mod 1000) * 1000000"
    using mult_mod_left[of m 1000 1000000] by simp
  have e: "int (m * 1000000 mod 2 ^ 64 mod 1000000000) = int (m mod 1000) * 1000000"
    unfolding ml r by simp
  have "m < 2 ^ 64" using assms by simp
  from option_u_decimal[OF this, of s] show ?thesis
    unfolding e .
qed

subsection \<open>Claims on the command line\<close>

lemma loop_flag:
  assumes "ch \<in> set ''SWcq''"
  shows "state_init_loop s v ([], [CHR ''-'', ch] # args, passed) =
     (case handle_option s v ch [] of Inl e \<Rightarrow> Inl e
      | Inr (s', v') \<Rightarrow> state_init_loop s' v' ([], args, passed))"
  by (rule state_init_loop_step) (rule getopt_flag[OF assms])

lemma loop_with_arg:
  assumes "ch \<in> set ''dnu''"
  shows "state_init_loop s v ([], [CHR ''-'', ch] # a # args, passed) =
     (case handle_option s v ch a of Inl e \<Rightarrow> Inl e
      | Inr (s', v') \<Rightarrow> state_init_loop s' v' ([], args, passed))"
  by (rule state_init_loop_step) (rule getopt_with_arg[OF assms])

lemmas opt_eval = getopt_letter_def getopt_left_def optstring_def handle_option_def option_d_def
  option_n_def option_u_def strtoul_def strtoul_sign_def strtoul_base_def hex_prefix_def isspace_def
  digit_of_def strtoul_digits_def ULONG_MAX_def UINT_MAX_def
  Let_def parse_args_def esnprintf_def basename_def PATH_MAX_def
  state_init_loop.simps

lemma loop_nil: "state_init_loop s v ([], [], passed) = Inr (s, v, passed)"
  by (subst state_init_loop_end[of "([], [], passed)" "([], [], passed)"]) (simp_all add: getopt_left_def)

lemma loop_passes_over:
  assumes "a = [] \<or> hd a \<noteq> CHR ''-'' \<or> a = ''-''"
  shows "state_init_loop s v ([], a # args, passed) = state_init_loop s v ([], args, passed @ [a])"
  by (subst state_init_loop.simps, subst (2) state_init_loop.simps)
     (simp only: getopt_passes_over[OF assms])

lemma loop_end_of_options:
  "state_init_loop s v ([], ''--'' # args, passed) = Inr (s, v, passed @ args)"
  by (subst state_init_loop_end[of "([], ''--'' # args, passed)" "([], args, passed)"])
     (simp_all add: getopt_left_def)

text \<open>
  Options are read after an argument that is not one, and that argument is then
  unexpected: \<^verbatim>\<open>foo -x\<close> ends with the usage text, \<^verbatim>\<open>foo -q\<close> with the message of
  \<^verbatim>\<open>errx\<close>.
\<close>

lemma options_after_arguments:
  "parse_args 2 ''w'' [''foo'', ''-x''] = Inl Usage"
  "parse_args 2 ''w'' [''foo'', ''-q''] = Inl (ExitFailure ''unexpected command-line arguments'')"
  by (simp_all add: opt_eval)

text \<open>
  Claim C5, as amended.  The command line recognizes exactly the option letters
  \<^verbatim>\<open>S\<close>, \<^verbatim>\<open>W\<close>, \<^verbatim>\<open>c\<close>, \<^verbatim>\<open>d\<close>, \<^verbatim>\<open>n\<close>, \<^verbatim>\<open>q\<close> and \<^verbatim>\<open>u\<close>.  Each equation says what
  the loop of \<^verbatim>\<open>state_init\<close> does with the next argument before it goes on with the
  others, whatever arguments have been passed over before: \<^verbatim>\<open>-S\<close> disables SWMR mode;
  \<^verbatim>\<open>-W\<close> disables the wait for the signal; \<^verbatim>\<open>-c\<close> selects the constant rate; \<^verbatim>\<open>-q\<close>
  sets the verbosity to 1; \<^verbatim>\<open>-d\<close> selects one dimension for \<^verbatim>\<open>1\<close> and \<^verbatim>\<open>one\<close>, two for
  \<^verbatim>\<open>2\<close>, \<^verbatim>\<open>two\<close> and \<^verbatim>\<open>both\<close>, and exits with failure for anything else; \<^verbatim>\<open>-n\<close> sets the
  number of steps to a decimal numeral up to \<^verbatim>\<open>UINT_MAX\<close>, and exits with failure for a
  larger one, for an empty argument and for an argument that \<^verbatim>\<open>strtoul\<close> does not read
  to its end; \<^verbatim>\<open>-u\<close> with the decimal numeral of \<open>m\<close> milliseconds, \<open>m\<close> below
  18446744073710, sets the interval to exactly \<open>m\<close> milliseconds, that is \<open>m div 1000\<close>
  seconds and \<open>(m mod 1000) * 10\<^sup>6\<close> nanoseconds; any other letter, and \<^verbatim>\<open>-d\<close>, \<^verbatim>\<open>-n\<close> or
  \<^verbatim>\<open>-u\<close> with no argument after it, prints the usage text and exits with failure.
\<close>

theorem state_init_options:
  "state_init_loop s v ([], ''-S'' # args, passed) = state_init_loop (s\<lparr>use_vfd_swmr := False\<rparr>) v ([], args, passed) \<and>
   state_init_loop s v ([], ''-W'' # args, passed) = state_init_loop (s\<lparr>wait_for_signal := False\<rparr>) v ([], args, passed) \<and>
   state_init_loop s v ([], ''-c'' # args, passed) = state_init_loop (s\<lparr>constantrate := True\<rparr>) v ([], args, passed) \<and>
   state_init_loop s v ([], ''-q'' # args, passed) = state_init_loop s 1 ([], args, passed) \<and>
   (a = ''1'' \<or> a = ''one'' \<longrightarrow>
      state_init_loop s v ([], ''-d'' # a # args, passed) = state_init_loop (s\<lparr>two_dee := False\<rparr>) v ([], args, passed)) \<and>
   (a = ''2'' \<or> a = ''two'' \<or> a = ''both'' \<longrightarrow>
      state_init_loop s v ([], ''-d'' # a # args, passed) = state_init_loop (s\<lparr>two_dee := True\<rparr>) v ([], args, passed)) \<and>
   (a \<notin> {''1'', ''one'', ''2'', ''two'', ''both''} \<longrightarrow>
      state_init_loop s v ([], ''-d'' # a # args, passed) = Inl (ExitFailure (''bad -d argument \"'' @ a @ ''\"''))) \<and>
   (n \<le> 4294967295 \<longrightarrow>
      state_init_loop s v ([], ''-n'' # decimal n # args, passed) = state_init_loop (s\<lparr>nsteps := of_nat n\<rparr>) v ([], args, passed)) \<and>
   (4294967295 < n \<longrightarrow>
      (\<exists>msg. state_init_loop s v ([], ''-n'' # decimal n # args, passed) = Inl (ExitFailure msg))) \<and>
   (a = [] \<or> fst (snd (strtoul a)) \<noteq> [] \<longrightarrow>
      (\<exists>msg. state_init_loop s v ([], ''-n'' # a # args, passed) = Inl (ExitFailure msg))) \<and>
   (m < 18446744073710 \<longrightarrow>
      state_init_loop s v ([], ''-u'' # decimal m # args, passed) =
        state_init_loop (s\<lparr>update_interval :=
           \<lparr>tv_sec = int (m div 1000), tv_nsec = int (m mod 1000) * 1000000\<rparr>\<rparr>) v ([], args, passed)) \<and>
   (ch \<notin> set ''SWcdnqu'' \<longrightarrow> (ch = CHR ''-'' \<longrightarrow> cl \<noteq> []) \<longrightarrow>
      state_init_loop s v ([], (CHR ''-'' # ch # cl) # args, passed) = Inl Usage) \<and>
   (ch \<in> set ''dnu'' \<longrightarrow> state_init_loop s v ([], [[CHR ''-'', ch]], passed) = Inl Usage) \<and>
   state_init_loop s v ([], [], passed) = Inr (s, v, passed)"
proof (intro conjI impI)
  show "state_init_loop s v ([], ''-S'' # args, passed) = state_init_loop (s\<lparr>use_vfd_swmr := False\<rparr>) v ([], args, passed)"
    by (subst loop_flag) (simp_all add: handle_option_def)
  show "state_init_loop s v ([], ''-W'' # args, passed) = state_init_loop (s\<lparr>wait_for_signal := False\<rparr>) v ([], args, passed)"
    by (subst loop_flag) (simp_all add: handle_option_def)
  show "state_init_loop s v ([], ''-c'' # args, passed) = state_init_loop (s\<lparr>constantrate := True\<rparr>) v ([], args, passed)"
    by (subst loop_flag) (simp_all add: handle_option_def)
  show "state_init_loop s v ([], ''-q'' # args, passed) = state_init_loop s 1 ([], args, passed)"
    by (subst loop_flag) (simp_all add: handle_option_def)
  show "state_init_loop s v ([], ''-d'' # a # args, passed) = state_init_loop (s\<lparr>two_dee := False\<rparr>) v ([], args, passed)"
    if "a = ''1'' \<or> a = ''one''"
    using that by (subst loop_with_arg) (auto simp: handle_option_def option_d_def)
  show "state_init_loop s v ([], ''-d'' # a # args, passed) = state_init_loop (s\<lparr>two_dee := True\<rparr>) v ([], args, passed)"
    if "a = ''2'' \<or> a = ''two'' \<or> a = ''both''"
    using that by (subst loop_with_arg) (auto simp: handle_option_def option_d_def)
  show "state_init_loop s v ([], ''-d'' # a # args, passed) = Inl (ExitFailure (''bad -d argument \"'' @ a @ ''\"''))"
    if "a \<notin> {''1'', ''one'', ''2'', ''two'', ''both''}"
    using that by (subst loop_with_arg) (auto simp: handle_option_def option_d_def)
  show "state_init_loop s v ([], ''-n'' # decimal n # args, passed) = state_init_loop (s\<lparr>nsteps := of_nat n\<rparr>) v ([], args, passed)"
    if "n \<le> 4294967295"
    using option_n_decimal[OF that, of s]
    by (subst loop_with_arg) (simp_all add: handle_option_def)
  show "\<exists>msg. state_init_loop s v ([], ''-n'' # decimal n # args, passed) = Inl (ExitFailure msg)"
    if "4294967295 < n"
    using option_n_too_large[OF that, of s]
    by (subst loop_with_arg) (auto simp: handle_option_def)
  show "\<exists>msg. state_init_loop s v ([], ''-n'' # a # args, passed) = Inl (ExitFailure msg)"
    if "a = [] \<or> fst (snd (strtoul a)) \<noteq> []"
    using option_n_not_numeric[OF that, of s]
    by (subst loop_with_arg) (auto simp: handle_option_def)
  show "state_init_loop s v ([], ''-u'' # decimal m # args, passed) =
        state_init_loop (s\<lparr>update_interval :=
           \<lparr>tv_sec = int (m div 1000), tv_nsec = int (m mod 1000) * 1000000\<rparr>\<rparr>) v ([], args, passed)"
    if "m < 18446744073710"
    using option_u_exact[OF that, of s]
    by (subst loop_with_arg) (simp_all add: handle_option_def)
  show "state_init_loop s v ([], (CHR ''-'' # ch # cl) # args, passed) = Inl Usage"
    if "ch \<notin> set ''SWcdnqu''" "ch = CHR ''-'' \<longrightarrow> cl \<noteq> []"
    by (subst state_init_loop_step[OF getopt_unknown[OF that]]) (simp add: handle_option_def)
  show "state_init_loop s v ([], [[CHR ''-'', ch]], passed) = Inl Usage"
    if "ch \<in> set ''dnu''"
    by (subst state_init_loop_step[OF getopt_missing_arg[OF that]]) (simp add: handle_option_def)
  show "state_init_loop s v ([], [], passed) = Inr (s, v, passed)"
    by (rule loop_nil)
qed


text \<open>
  The amended claim C5 on command lines of one option each.
\<close>

theorem state_init_options_witness:
  "state_init_loop ALL_HID_INITIALIZER 2 ([], [''-S''], []) =
     Inr (ALL_HID_INITIALIZER\<lparr>use_vfd_swmr := False\<rparr>, 2, []) \<and>
   state_init_loop ALL_HID_INITIALIZER 2 ([], [''-q''], []) = Inr (ALL_HID_INITIALIZER, 1, []) \<and>
   state_init_loop ALL_HID_INITIALIZER 2 ([], [''-d'', ''both''], []) =
     Inr (ALL_HID_INITIALIZER\<lparr>two_dee := True\<rparr>, 2, []) \<and>
   state_init_loop ALL_HID_INITIALIZER 2 ([], [''-d'', ''3''], []) =
     Inl (ExitFailure ''bad -d argument \"3\"'') \<and>
   state_init_loop ALL_HID_INITIALIZER 2 ([], [''-n'', ''7''], []) =
     Inr (ALL_HID_INITIALIZER\<lparr>nsteps := 7\<rparr>, 2, []) \<and>
   (\<exists>msg. state_init_loop ALL_HID_INITIALIZER 2 ([], [''-n'', ''4294967296''], []) = Inl (ExitFailure msg)) \<and>
   (\<exists>msg. state_init_loop ALL_HID_INITIALIZER 2 ([], [''-n'', ''12x''], []) = Inl (ExitFailure msg)) \<and>
   state_init_loop ALL_HID_INITIALIZER 2 ([], [''-u'', ''1500''], []) =
     Inr (ALL_HID_INITIALIZER\<lparr>update_interval := \<lparr>tv_sec = 1, tv_nsec = 500000000\<rparr>\<rparr>, 2, []) \<and>
   state_init_loop ALL_HID_INITIALIZER 2 ([], [''-x''], []) = Inl Usage \<and>
   state_init_loop ALL_HID_INITIALIZER 2 ([], [''-u''], []) = Inl Usage"
proof -
  have d7: "decimal 7 = ''7''" by (simp add: decimal.simps char_of_eq_iff)
  have dbig: "decimal 4294967296 = ''4294967296''" by (simp add: decimal.simps char_of_eq_iff)
  have d1500: "decimal 1500 = ''1500''" by (simp add: decimal.simps char_of_eq_iff)
  have g: "fst (snd (strtoul ''12x'')) \<noteq> []"
    by (simp add: strtoul_def strtoul_sign_def strtoul_base_def hex_prefix_def isspace_def
        digit_of_def strtoul_digits_def ULONG_MAX_def Let_def)
  note A = state_init_options[of ALL_HID_INITIALIZER 2 "[]" "[]" "''both''" 7 1500 "CHR ''x''" "[]"]
  note B = state_init_options[of ALL_HID_INITIALIZER 2 "[]" "[]" "''3''" 4294967296 1500 "CHR ''u''" "[]"]
  note C = state_init_options[of ALL_HID_INITIALIZER 2 "[]" "[]" "''12x''" 7 1500 "CHR ''x''" "[]"]
  show ?thesis
    using A B C g by (simp add: d7 dbig d1500 loop_nil)
qed

text \<open>
  Claim C5 as stated, with exactly the letters \<^verbatim>\<open>S\<close>, \<^verbatim>\<open>W\<close>, \<^verbatim>\<open>u\<close>, \<^verbatim>\<open>n\<close>, \<^verbatim>\<open>d\<close> and
  \<^verbatim>\<open>c\<close>, fails: \<^verbatim>\<open>-q\<close> is recognized too, and sets the verbosity to 1, where a letter
  that is not recognized, such as \<^verbatim>\<open>-x\<close>, ends the program with the usage text.
\<close>

theorem option_q_recognized:
  "parse_args 2 ''w'' [''-q''] = Inr (ALL_HID_INITIALIZER\<lparr>progname := ''w''\<rparr>, 1) \<and>
   parse_args 2 ''w'' [''-x''] = Inl Usage \<and>
   CHR ''q'' \<notin> set ''SWundc''"
  by (simp add: opt_eval)


text \<open>
  Claim C6 fails on the code.  For \<^verbatim>\<open>-u 18446744073710\<close> the product
  \<^verbatim>\<open>millis * 1000000UL\<close> exceeds \<open>2\<^sup>6\<^sup>4\<close> and wraps to 448384: the interval is
  18446744073 seconds and 448384 nanoseconds, which is not \<open>millis\<close> milliseconds,
  neither exactly nor modulo \<open>2\<^sup>6\<^sup>4\<close>.
\<close>

theorem update_interval_overflows:
  "\<exists>s. parse_args 2 ''w'' [''-u'', ''18446744073710''] = Inr (s, 2) \<and>
     tv_sec (update_interval s) = 18446744073 \<and>
     tv_nsec (update_interval s) = 448384 \<and>
     tv_sec (update_interval s) * 1000000000 + tv_nsec (update_interval s) = 18446744073000448384 \<and>
     (18446744073710 * 1000000 :: int) = 18446744073710000000 \<and>
     (18446744073000448384 :: int) mod 2 ^ 64 = 18446744073000448384 \<and>
     (18446744073710000000 :: int) mod 2 ^ 64 = 448384"
  by (simp add: opt_eval)

subsection \<open>The calls of the writer\<close>

lemma thn_Inr:
  "thn m f tr = (Inr y, tr'') \<longleftrightarrow> (\<exists>x tr'. m tr = (Inr x, tr') \<and> f x tr' = (Inr y, tr''))"
  by (auto simp: thn_def split: prod.splits sum.splits)

lemma thn_cases:
  assumes "thn m f tr = (res, tr'')"
  obtains (stopped) e where "m tr = (Inl e, tr'')" "res = Inl e"
    | (went_on) x tr' where "m tr = (Inr x, tr')" "f x tr' = (res, tr'')"
  using assms by (auto simp: thn_def split: prod.splits sum.splits)

lemma lib_call_eq [simp]:
  "lib_call lib c tr = (res, tr') \<longleftrightarrow> res = Inr (lib tr c) \<and> tr' = tr @ [(c, lib tr c)]"
  by (auto simp: lib_call_def)

lemma ret_eq [simp]: "ret x tr = (res, tr') \<longleftrightarrow> res = Inr x \<and> tr' = tr"
  by (auto simp: ret_def)

lemma stop_eq [simp]: "stop e tr = (res, tr') \<longleftrightarrow> res = Inl e \<and> tr' = tr"
  by (auto simp: stop_def)

lemma lift_eq [simp]: "lift r tr = (res, tr') \<longleftrightarrow> res = r \<and> tr' = tr"
  by (auto simp: lift_def)

lemma errx_if_Inr [simp]: "errx_if b msg tr = (Inr u, tr') \<longleftrightarrow> \<not> b \<and> tr' = tr"
  by (auto simp: errx_if_def)

lemma assert_Inr [simp]: "assert b tr = (Inr u, tr') \<longleftrightarrow> b \<and> tr' = tr"
  by (auto simp: assert_def)

lemma create_extensible_dset_ok:
  assumes "create_extensible_dset lib s which tr = (Inr s', tr')"
  shows "\<exists>fs dcpl r1 ds r2.
     tr' = tr @
       [(H5Screate_simple 2 original_dims
           (Some (if two_dee s then two_dee_max_dims else one_dee_max_dims)), fs),
        (H5Pcreate H5P_DATASET_CREATE, dcpl),
        (H5Pset_chunk dcpl 2 chunk_dims, r1),
        (H5Dcreate2 (h5file s) (''/dataset-'' @ decimal (unat which)) H5T_STD_U32BE fs H5P_DEFAULT
           dcpl H5P_DEFAULT, ds),
        (H5Sclose fs, r2)] \<and>
     0 \<le> fs \<and> 0 \<le> dcpl \<and> 0 \<le> r1 \<and> 0 \<le> ds \<and> 0 \<le> r2 \<and>
     unat which < length (dataset s) \<and>
     s' = s\<lparr>dataset := (dataset s)[unat which := ds]\<rparr>"
  using assms unfolding create_extensible_dset_def
  by (auto simp: thn_Inr esnprintf_def RANK_def original_dims_def split: if_splits)

lemma init_and_write_chunk_ok:
  assumes "init_and_write_chunk lib ds fs ms mat which base tr = (Inr mat', tr')"
  shows "\<exists>r1 r2.
     init_matrix mat which base = Inr mat' \<and>
     tr' = tr @
       [(H5Sselect_hyperslab fs H5S_SELECT_SET [row base, col base] None chunk_dims None, r1),
        (H5Dwrite ds H5T_NATIVE_UINT32 ms fs H5P_DEFAULT mat', r2)] \<and>
     0 \<le> r1 \<and> 0 \<le> r2"
  using assms unfolding init_and_write_chunk_def
  by (auto simp: thn_Inr)

subsection \<open>Kinds of calls\<close>

lemma emitsI:
  assumes "\<And>tr res tr'. m tr = (res, tr') \<Longrightarrow> \<exists>evs. tr' = tr @ evs \<and> (\<forall>e\<in>set evs. K (fst e))"
  shows "emits K m"
  using assms unfolding emits_def by blast

lemma emitsD:
  assumes "emits K m" "m tr = (res, tr')"
  obtains evs where "tr' = tr @ evs" "\<forall>e\<in>set evs. K (fst e)"
  using assms unfolding emits_def by blast

lemma emits_ret [intro!]: "emits K (ret x)"
  by (rule emitsI) simp

lemma emits_stop [intro!]: "emits K (stop e)"
  by (rule emitsI) simp

lemma emits_lift [intro!]: "emits K (lift r)"
  by (rule emitsI) simp

lemma emits_errx_if [intro!]: "emits K (errx_if b msg)"
  by (simp add: errx_if_def emits_ret emits_stop)

lemma emits_assert [intro!]: "emits K (assert b)"
  by (simp add: assert_def emits_ret emits_stop)

lemma emits_call: "K c \<Longrightarrow> emits K (lib_call lib c)"
  by (rule emitsI) simp

lemma emits_thn [intro!]:
  assumes "emits K m" "\<And>x. emits K (f x)"
  shows "emits K (thn m f)"
proof (rule emitsI)
  fix tr res tr'' assume r: "thn m f tr = (res, tr'')"
  then show "\<exists>evs. tr'' = tr @ evs \<and> (\<forall>e\<in>set evs. K (fst e))"
  proof (cases rule: thn_cases)
    case (stopped e)
    then show ?thesis using assms(1) by (auto elim: emitsD)
  next
    case (went_on x tr')
    from emitsD[OF assms(1) went_on(1)] obtain e1 where 1: "tr' = tr @ e1" "\<forall>e\<in>set e1. K (fst e)" .
    from emitsD[OF assms(2) went_on(2)] obtain e2 where 2: "tr'' = tr' @ e2" "\<forall>e\<in>set e2. K (fst e)" .
    show ?thesis using 1 2 by (intro exI[of _ "e1 @ e2"]) auto
  qed
qed

lemma emits_if [intro!]: "emits K a \<Longrightarrow> emits K b \<Longrightarrow> emits K (if c then a else b)"
  by simp

lemma emits_case_prod [intro!]: "(\<And>a b. emits K (f a b)) \<Longrightarrow> emits K (case p of (a, b) \<Rightarrow> f a b)"
  by (cases p) simp

lemma emits_mono: "emits K m \<Longrightarrow> (\<And>c. K c \<Longrightarrow> K' c) \<Longrightarrow> emits K' m"
  unfolding emits_def by (metis (no_types, lifting))

lemma emits_step:
  assumes "emits K m" "\<And>x tr'. emits K (\<lambda>tr. f x tr)"
  shows "emits K (\<lambda>tr. case m tr of (Inl e, tr') \<Rightarrow> (Inl e, tr') | (Inr x, tr') \<Rightarrow> f x tr')"
proof -
  have "(\<lambda>tr. case m tr of (Inl e, tr') \<Rightarrow> (Inl e, tr') | (Inr x, tr') \<Rightarrow> f x tr') = thn m f"
    by (rule ext) (simp add: thn_def)
  then show ?thesis using assms by (simp add: emits_thn)
qed

lemma emits_state_init: "emits open_call (state_init lib v argv0 args)"
  unfolding state_init_def
  by (intro emits_thn emits_case_prod emits_lift emits_errx_if emits_ret emits_call)
     (simp add: open_call_def)

lemma emits_main_open: "emits open_call (main_open lib v argv0 args)"
  unfolding main_open_def
  by (intro emits_thn emits_case_prod emits_lift emits_errx_if emits_ret emits_call emits_state_init)
     (simp_all add: open_call_def)

lemma emits_create: "emits create_call (create_extensible_dset lib s which)"
  unfolding create_extensible_dset_def
  by (intro emits_thn emits_lift emits_errx_if emits_assert emits_ret emits_call)
     (simp_all add: create_call_def)

lemma emits_chunk: "emits chunk_call (init_and_write_chunk lib ds fs ms mat which base)"
  unfolding init_and_write_chunk_def
  by (intro emits_thn emits_lift emits_errx_if emits_ret emits_call)
     (simp_all add: chunk_call_def)

lemma emits_main_close: "emits close_call (main_close lib s h)"
  unfolding main_close_def
  by (intro emits_thn emits_if emits_errx_if emits_ret emits_call)
     (simp_all add: close_call_def)

declare write_last_col.simps [simp del] write_last_row.simps [simp del]

lemma write_last_col_kinds:
  "write_last_col lib ds fs ms which step b mat tr = (res, tr') \<Longrightarrow>
   \<exists>evs. tr' = tr @ evs \<and> (\<forall>e\<in>set evs. chunk_call (fst e))"
proof (induction lib ds fs ms which step b mat tr rule: write_last_col.induct)
  case (1 lib ds fs ms which step b mat tr)
  let ?last = "last_base True step"
  show ?case
  proof (cases "b \<le> row ?last")
    case False
    then show ?thesis using "1.prems" by (subst (asm) write_last_col.simps) (simp add: Let_def)
  next
    case True
    obtain r1 t1 where c: "init_and_write_chunk lib ds fs ms mat which \<lparr>row = b, col = col ?last\<rparr> tr = (r1, t1)"
      by fastforce
    from emitsD[OF emits_chunk c] obtain e1 where e1: "t1 = tr @ e1" "\<forall>e\<in>set e1. chunk_call (fst e)" .
    show ?thesis
    proof (cases r1)
      case (Inl e)
      then have "tr' = t1" using "1.prems" True c
        by (subst (asm) write_last_col.simps) (simp add: Let_def)
      then show ?thesis using e1 by blast
    next
      case (Inr m)
      then have "write_last_col lib ds fs ms which step (b + original_dims ! 0) m t1 = (res, tr')"
        using "1.prems" True c by (subst (asm) write_last_col.simps) (simp add: Let_def)
      from "1.IH"[OF refl True c[symmetric, unfolded Inr] refl this]
      obtain e2 where "tr' = t1 @ e2" "\<forall>e\<in>set e2. chunk_call (fst e)" by blast
      then show ?thesis using e1 by (intro exI[of _ "e1 @ e2"]) auto
    qed
  qed
qed

lemma write_last_row_kinds:
  "write_last_row lib ds fs ms which step b mat tr = (res, tr') \<Longrightarrow>
   \<exists>evs. tr' = tr @ evs \<and> (\<forall>e\<in>set evs. chunk_call (fst e))"
proof (induction lib ds fs ms which step b mat tr rule: write_last_row.induct)
  case (1 lib ds fs ms which step b mat tr)
  let ?last = "last_base True step"
  show ?case
  proof (cases "b < col ?last")
    case False
    then show ?thesis using "1.prems" by (subst (asm) write_last_row.simps) (simp add: Let_def)
  next
    case True
    obtain r1 t1 where c: "init_and_write_chunk lib ds fs ms mat which \<lparr>row = row ?last, col = b\<rparr> tr = (r1, t1)"
      by fastforce
    from emitsD[OF emits_chunk c] obtain e1 where e1: "t1 = tr @ e1" "\<forall>e\<in>set e1. chunk_call (fst e)" .
    show ?thesis
    proof (cases r1)
      case (Inl e)
      then have "tr' = t1" using "1.prems" True c
        by (subst (asm) write_last_row.simps) (simp add: Let_def)
      then show ?thesis using e1 by blast
    next
      case (Inr m)
      then have "write_last_row lib ds fs ms which step (b + original_dims ! 1) m t1 = (res, tr')"
        using "1.prems" True c by (subst (asm) write_last_row.simps) (simp add: Let_def)
      from "1.IH"[OF refl True c[symmetric, unfolded Inr] refl this]
      obtain e2 where "tr' = t1 @ e2" "\<forall>e\<in>set e2. chunk_call (fst e)" by blast
      then show ?thesis using e1 by (intro exI[of _ "e1 @ e2"]) auto
    qed
  qed
qed

lemma chunk_is_epoch: "chunk_call c \<Longrightarrow> epoch_call c"
  by (cases c) (simp_all add: chunk_call_def epoch_call_def)

lemma emits_write_last_col: "emits epoch_call (write_last_col lib ds fs ms which step b mat)"
proof (rule emits_mono[where K = chunk_call])
  show "emits chunk_call (write_last_col lib ds fs ms which step b mat)"
    by (rule emitsI) (erule write_last_col_kinds)
qed (rule chunk_is_epoch)

lemma emits_write_last_row: "emits epoch_call (write_last_row lib ds fs ms which step b mat)"
proof (rule emits_mono[where K = chunk_call])
  show "emits chunk_call (write_last_row lib ds fs ms which step b mat)"
    by (rule emitsI) (erule write_last_row_kinds)
qed (rule chunk_is_epoch)

lemma emits_chunk_epoch: "emits epoch_call (init_and_write_chunk lib ds fs ms mat which base)"
  by (rule emits_mono[OF emits_chunk]) (rule chunk_is_epoch)

lemma emits_write_extensible_dset: "emits epoch_call (write_extensible_dset lib s which step mat)"
  unfolding write_extensible_dset_def
  by (intro emits_thn emits_if emits_errx_if emits_assert emits_ret emits_call
        emits_write_last_col emits_write_last_row emits_chunk_epoch)
     (simp_all add: epoch_call_def)

lemma create_all_kinds:
  "create_all lib n which s tr = (res, tr') \<Longrightarrow>
   \<exists>evs. tr' = tr @ evs \<and> (\<forall>e\<in>set evs. create_call (fst e))"
proof (induction n arbitrary: which s tr)
  case 0
  then show ?case by simp
next
  case (Suc n)
  obtain r1 t1 where c: "create_extensible_dset lib s (of_nat which) tr = (r1, t1)" by fastforce
  from emitsD[OF emits_create c] obtain e1 where e1: "t1 = tr @ e1" "\<forall>e\<in>set e1. create_call (fst e)" .
  show ?case
  proof (cases r1)
    case (Inl e)
    then show ?thesis using Suc.prems c e1 by auto
  next
    case (Inr s1)
    then have "create_all lib n (Suc which) s1 t1 = (res, tr')" using Suc.prems c by simp
    from Suc.IH[OF this] obtain e2 where "tr' = t1 @ e2" "\<forall>e\<in>set e2. create_call (fst e)" by blast
    then show ?thesis using e1 by (intro exI[of _ "e1 @ e2"]) auto
  qed
qed

lemma write_all_kinds:
  "write_all lib s step n which mat tr = (res, tr') \<Longrightarrow>
   \<exists>evs. tr' = tr @ evs \<and> (\<forall>e\<in>set evs. epoch_call (fst e))"
proof (induction n arbitrary: which mat tr)
  case 0
  then show ?case by simp
next
  case (Suc n)
  obtain r1 t1 where c: "write_extensible_dset lib s (of_nat which) (of_nat step) mat tr = (r1, t1)"
    by fastforce
  from emitsD[OF emits_write_extensible_dset c]
  obtain e1 where e1: "t1 = tr @ e1" "\<forall>e\<in>set e1. epoch_call (fst e)" .
  show ?case
  proof (cases r1)
    case (Inl e)
    then show ?thesis using Suc.prems c e1 by auto
  next
    case (Inr m1)
    let ?t2 = "t1 @ [(nanosleep (update_interval s), lib t1 (nanosleep (update_interval s)))]"
    have "write_all lib s step n (Suc which) m1 ?t2 = (res, tr')"
      using Suc.prems c Inr by (simp add: lib_call_def)
    from Suc.IH[OF this] obtain e2 where "tr' = ?t2 @ e2" "\<forall>e\<in>set e2. epoch_call (fst e)" by blast
    then show ?thesis using e1
      by (intro exI[of _ "e1 @ (nanosleep (update_interval s), lib t1 (nanosleep (update_interval s))) # e2"])
         (auto simp: epoch_call_def)
  qed
qed

lemma epochs_kinds:
  "epochs lib s n step mat tr = (res, tr') \<Longrightarrow>
   \<exists>evs. tr' = tr @ evs \<and> (\<forall>e\<in>set evs. epoch_call (fst e))"
proof (induction n arbitrary: step mat tr)
  case 0
  then show ?case by simp
next
  case (Suc n)
  obtain r1 t1 where c: "write_all lib s step NSETS 0 mat tr = (r1, t1)" by fastforce
  from write_all_kinds[OF c] obtain e1 where e1: "t1 = tr @ e1" "\<forall>e\<in>set e1. epoch_call (fst e)"
    by blast
  show ?case
  proof (cases r1)
    case (Inl e)
    then show ?thesis using Suc.prems c e1 by auto
  next
    case (Inr m1)
    then have "epochs lib s n (Suc step) m1 t1 = (res, tr')" using Suc.prems c by simp
    from Suc.IH[OF this] obtain e2 where "tr' = t1 @ e2" "\<forall>e\<in>set e2. epoch_call (fst e)" by blast
    then show ?thesis using e1 by (intro exI[of _ "e1 @ e2"]) auto
  qed
qed

subsection \<open>Reading traces\<close>

lemma view_from_Nil [simp]: "view_from v [] = v"
  by (simp add: view_from_def)

lemma view_from_Cons [simp]: "view_from v (e # es) = view_from (observe v e) es"
  by (simp add: view_from_def)

lemma view_from_append: "view_from v (a @ b) = view_from (view_from v a) b"
  by (simp add: view_from_def)

lemma adds_Nil [simp]: "adds F [] []"
  by (simp add: adds_def)

lemma adds_append: "adds F e1 x1 \<Longrightarrow> adds F e2 x2 \<Longrightarrow> adds F (e1 @ e2) (x1 @ x2)"
  by (simp add: adds_def view_from_append)

lemma adds_Cons: "adds F [e] x1 \<Longrightarrow> adds F e2 x2 \<Longrightarrow> adds F (e # e2) (x1 @ x2)"
  using adds_append[of F "[e]" x1 e2 x2] by simp

lemma adds_nothing:
  assumes "\<forall>e\<in>set evs. K (fst e)" "\<And>c r v. K c \<Longrightarrow> F (observe v (c, r)) = F v"
  shows "adds F evs []"
  unfolding adds_def
proof
  fix v show "F (view_from v evs) = F v @ []"
    using assms(1)
  proof (induction evs arbitrary: v)
    case Nil
    then show ?case by simp
  next
    case (Cons e evs)
    obtain c r where e: "e = (c, r)" by (cases e)
    have "F (observe v e) = F v" using Cons.prems assms(2) e by simp
    then show ?case using Cons.IH[of "observe v e"] Cons.prems by simp
  qed
qed

lemma adds_view_of: "adds F evs xs \<Longrightarrow> F no_view = [] \<Longrightarrow> F (view_of evs) = xs"
  by (simp add: adds_def view_of_def)

lemma adds_unique: "adds F evs xs \<Longrightarrow> adds F evs ys \<Longrightarrow> xs = ys"
  unfolding adds_def by (metis same_append_eq)

lemma chunk_keeps_extents: "chunk_call c \<Longrightarrow> extents (observe v (c, r)) = extents v"
  by (cases c) (simp_all add: observe_def chunk_call_def)

lemma chunk_keeps_datasets: "chunk_call c \<Longrightarrow> datasets (observe v (c, r)) = datasets v"
  by (cases c) (simp_all add: observe_def chunk_call_def datasets_def)

lemma chunk_block_adds:
  assumes "0 \<le> r1" "0 \<le> r2"
  shows "adds written
      [(H5Sselect_hyperslab fs H5S_SELECT_SET start None cd None, r1),
       (H5Dwrite ds ty ms fs H5P_DEFAULT m, r2)]
      [\<lparr>w_ds = ds, w_mem_type = ty, w_mem_space = ms,
        w_file_sel = Some \<lparr>hs_start = start, hs_stride = None, hs_count = cd, hs_block = None\<rparr>,
        w_buf = m\<rparr>]"
  using assms by (simp add: adds_def observe_def)

lemma init_matrix_Inr:
  assumes "init_matrix mat which base = Inr m"
  shows "\<forall>r<ROWS. \<forall>c<COLS. cell_ok which base r c \<and> m r c = cell_val which base r c"
proof -
  have ok: "cell_ok which base r c" if "r < ROWS" "c < COLS" for r c
  proof (rule ccontr)
    assume "\<not> cell_ok which base r c"
    from init_matrix_fail[OF that this, of mat] assms show False by simp
  qed
  from init_matrix_ok[of which base mat] ok assms
  have "m = (\<lambda>r c. if r < ROWS \<and> c < COLS then cell_val which base r c else mat r c)"
    by simp
  then show ?thesis using ok by simp
qed

lemma chunk_wrote:
  assumes "init_and_write_chunk lib ds fs ms mat which base tr = (Inr mat', tr')"
  shows "\<exists>evs w. tr' = tr @ evs \<and> adds written evs [w] \<and>
     wrote which ms w (ds, Some (chunk_at [row base, col base]))"
proof -
  from init_and_write_chunk_ok[OF assms] obtain q1 q2 where
    i: "init_matrix mat which base = Inr mat'"
    and t: "tr' = tr @
       [(H5Sselect_hyperslab fs H5S_SELECT_SET [row base, col base] None chunk_dims None, q1),
        (H5Dwrite ds H5T_NATIVE_UINT32 ms fs H5P_DEFAULT mat', q2)]"
    and q: "0 \<le> q1" "0 \<le> q2"
    by blast
  let ?w = "\<lparr>w_ds = ds, w_mem_type = H5T_NATIVE_UINT32, w_mem_space = ms,
     w_file_sel = Some (chunk_at [row base, col base]), w_buf = mat'\<rparr>"
  have a: "adds written
       [(H5Sselect_hyperslab fs H5S_SELECT_SET [row base, col base] None chunk_dims None, q1),
        (H5Dwrite ds H5T_NATIVE_UINT32 ms fs H5P_DEFAULT mat', q2)] [?w]"
    using chunk_block_adds[OF q, of fs "[row base, col base]" chunk_dims ds H5T_NATIVE_UINT32 ms mat']
    by (simp add: chunk_at_def chunk_dims_def original_dims_def ROWS_def COLS_def)
  have b: "\<lparr>row = row base, col = col base\<rparr> = base" by (cases base) simp
  have h: "holds_chunk which ?w"
    using init_matrix_Inr[OF i] by (simp add: holds_chunk_def chunk_at_def b)
  have "wrote which ms ?w (ds, Some (chunk_at [row base, col base]))"
    using h by (simp add: wrote_def)
  then show ?thesis using t a by blast
qed

lemma wrote_all:
  assumes "list_all2 (wrote which ms) ws bs"
  shows "map (\<lambda>w. (w_ds w, w_file_sel w)) ws = bs"
    and "\<forall>w\<in>set ws. w_mem_type w = H5T_NATIVE_UINT32 \<and> w_mem_space w = ms \<and> holds_chunk which w"
  using assms by (induction rule: list_all2_induct) (auto simp: wrote_def)

subsection \<open>Offsets as words\<close>

lemma unat_ucast_step: "unat (ucast (step :: uint32_t) :: hsize_t) = unat step"
proof -
  have "unat step < 2 ^ 32"
    using unsigned_less[where 'b = 32 and w = step and 'a = nat] by simp
  then show ?thesis by (simp add: unsigned_ucast_eq take_bit_nat_eq_self)
qed

lemma unat_step_less: "unat (step :: uint32_t) < 4294967296"
  using unsigned_less[where 'b = 32 and w = step and 'a = nat] by simp

lemma unat_of_nat_hsize: "n < 2 ^ 64 \<Longrightarrow> unat (of_nat n :: hsize_t) = n"
  by (simp add: unat_of_nat)

lemma last_base_of_nat:
  "row (last_base two step) = of_nat (256 * unat step)"
  "col (last_base two step) = (if two then of_nat (512 * unat step) else 0)"
proof -
  have "(ucast step :: hsize_t) = of_nat (unat step)"
    by simp
  then show "row (last_base two step) = of_nat (256 * unat step)"
    "col (last_base two step) = (if two then of_nat (512 * unat step) else 0)"
    by (simp_all add: last_base_def original_dims_def ROWS_def COLS_def)
qed

lemma new_size_of_nat:
  assumes "unat step < 4294967295"
  shows "new_size two step =
     [of_nat (256 * (unat step + 1)), of_nat (if two then 512 * (unat step + 1) else 512)]"
proof -
  have "unat (1 + step) = unat step + 1"
    using assms by (simp add: unat_word_ariths)
  then have "(ucast (1 + step) :: hsize_t) = of_nat (unat step + 1)"
    using of_nat_unat[of "1 + step", where 'a = "64 word"] by simp
  then show ?thesis
    by (simp add: new_size_def original_dims_def ROWS_def COLS_def)
qed

lemma hsize_le_iff:
  assumes "a < 2 ^ 64" "b < 2 ^ 64"
  shows "(of_nat a :: hsize_t) \<le> of_nat b \<longleftrightarrow> a \<le> b"
    and "(of_nat a :: hsize_t) < of_nat b \<longleftrightarrow> a < b"
  using assms by (simp_all add: word_le_nat_alt word_less_nat_alt unat_of_nat)

subsection \<open>The blocks that a step writes\<close>

lemma write_last_col_ok:
  assumes "write_last_col lib ds fs ms which step b mat tr = (Inr mat', tr')"
    and "b = of_nat (256 * i)" "i \<le> Suc (unat step)"
  shows "\<exists>evs ws. tr' = tr @ evs \<and> adds written evs ws \<and>
     list_all2 (wrote which ms) ws
       (map (\<lambda>i'. (ds, Some (chunk_at [of_nat (256 * i'), of_nat (512 * unat step)])))
          [i..<Suc (unat step)])"
  using assms
proof (induction lib ds fs ms which step b mat tr arbitrary: i rule: write_last_col.induct)
  case (1 lib ds fs ms which step b mat tr)
  let ?k = "unat step"
  let ?last = "last_base True step"
  have k: "?k < 4294967296" by (rule unat_step_less)
  have bi: "256 * i < 2 ^ 64" "256 * ?k < 2 ^ 64" using "1.prems"(3) k by simp_all
  have le: "b \<le> row ?last \<longleftrightarrow> i \<le> ?k"
    unfolding "1.prems"(2) last_base_of_nat using hsize_le_iff(1)[OF bi] by simp
  show ?case
  proof (cases "i \<le> ?k")
    case False
    then have "i = Suc ?k" using "1.prems"(3) by simp
    moreover have "tr' = tr"
      using "1.prems"(1) False le by (subst (asm) write_last_col.simps) (simp add: Let_def)
    ultimately show ?thesis by (intro exI[of _ "[]"]) simp
  next
    case True
    then have T: "b \<le> row ?last" using le by simp
    obtain r1 t1 where c: "init_and_write_chunk lib ds fs ms mat which \<lparr>row = b, col = col ?last\<rparr> tr = (r1, t1)"
      by fastforce
    have "\<exists>m. r1 = Inr m"
      using "1.prems"(1) T c by (subst (asm) write_last_col.simps) (auto simp: Let_def split: sum.splits)
    then obtain m where m: "r1 = Inr m" by blast
    have rec: "write_last_col lib ds fs ms which step (b + original_dims ! 0) m t1 = (Inr mat', tr')"
      using "1.prems"(1) T c m by (subst (asm) write_last_col.simps) (simp add: Let_def)
    have nb: "b + original_dims ! 0 = of_nat (256 * Suc i)"
      unfolding "1.prems"(2) by (simp add: original_dims_def ROWS_def)
    from "1.IH"[OF refl T c[symmetric, unfolded m] refl rec nb] True
    obtain e2 ws2 where e2: "tr' = t1 @ e2" "adds written e2 ws2"
      "list_all2 (wrote which ms) ws2
         (map (\<lambda>i'. (ds, Some (chunk_at [of_nat (256 * i'), of_nat (512 * ?k)]))) [Suc i..<Suc ?k])"
      by auto
    from chunk_wrote[OF c[unfolded m]] obtain e1 w where
      e1: "t1 = tr @ e1" "adds written e1 [w]"
      and w: "wrote which ms w (ds, Some (chunk_at [of_nat (256 * i), of_nat (512 * ?k)]))"
      by (auto simp: "1.prems"(2) last_base_of_nat)
    have l: "[i..<Suc ?k] = i # [Suc i..<Suc ?k]" using True by (simp add: upt_conv_Cons)
    have a: "adds written (e1 @ e2) (w # ws2)"
      using adds_append[OF e1(2) e2(2)] by simp
    have "tr' = tr @ (e1 @ e2)" using e1(1) e2(1) by simp
    moreover have "list_all2 (wrote which ms) (w # ws2)
       (map (\<lambda>i'. (ds, Some (chunk_at [of_nat (256 * i'), of_nat (512 * ?k)]))) [i..<Suc ?k])"
      unfolding l using w e2(3) by simp
    ultimately show ?thesis using a by blast
  qed
qed

lemma write_last_row_ok:
  assumes "write_last_row lib ds fs ms which step b mat tr = (Inr mat', tr')"
    and "b = of_nat (512 * j)" "j \<le> unat step"
  shows "\<exists>evs ws. tr' = tr @ evs \<and> adds written evs ws \<and>
     list_all2 (wrote which ms) ws
       (map (\<lambda>j'. (ds, Some (chunk_at [of_nat (256 * unat step), of_nat (512 * j')])))
          [j..<unat step])"
  using assms
proof (induction lib ds fs ms which step b mat tr arbitrary: j rule: write_last_row.induct)
  case (1 lib ds fs ms which step b mat tr)
  let ?k = "unat step"
  let ?last = "last_base True step"
  have k: "?k < 4294967296" by (rule unat_step_less)
  have bi: "512 * j < 2 ^ 64" "512 * ?k < 2 ^ 64" using "1.prems"(3) k by simp_all
  have lt: "b < col ?last \<longleftrightarrow> j < ?k"
    unfolding "1.prems"(2) last_base_of_nat using hsize_le_iff(2)[OF bi] by simp
  show ?case
  proof (cases "j < ?k")
    case False
    then have "j = ?k" using "1.prems"(3) by simp
    moreover have "tr' = tr"
      using "1.prems"(1) False lt by (subst (asm) write_last_row.simps) (simp add: Let_def)
    ultimately show ?thesis by (intro exI[of _ "[]"]) simp
  next
    case True
    then have T: "b < col ?last" using lt by simp
    obtain r1 t1 where c: "init_and_write_chunk lib ds fs ms mat which \<lparr>row = row ?last, col = b\<rparr> tr = (r1, t1)"
      by fastforce
    have "\<exists>m. r1 = Inr m"
      using "1.prems"(1) T c by (subst (asm) write_last_row.simps) (auto simp: Let_def split: sum.splits)
    then obtain m where m: "r1 = Inr m" by blast
    have rec: "write_last_row lib ds fs ms which step (b + original_dims ! 1) m t1 = (Inr mat', tr')"
      using "1.prems"(1) T c m by (subst (asm) write_last_row.simps) (simp add: Let_def)
    have nb: "b + original_dims ! 1 = of_nat (512 * Suc j)"
      unfolding "1.prems"(2) by (simp add: original_dims_def COLS_def)
    from "1.IH"[OF refl T c[symmetric, unfolded m] refl rec nb] True
    obtain e2 ws2 where e2: "tr' = t1 @ e2" "adds written e2 ws2"
      "list_all2 (wrote which ms) ws2
         (map (\<lambda>j'. (ds, Some (chunk_at [of_nat (256 * ?k), of_nat (512 * j')]))) [Suc j..<?k])"
      by auto
    from chunk_wrote[OF c[unfolded m]] obtain e1 w where
      e1: "t1 = tr @ e1" "adds written e1 [w]"
      and w: "wrote which ms w (ds, Some (chunk_at [of_nat (256 * ?k), of_nat (512 * j)]))"
      by (auto simp: "1.prems"(2) last_base_of_nat)
    have l: "[j..<?k] = j # [Suc j..<?k]" using True by (simp add: upt_conv_Cons)
    have a: "adds written (e1 @ e2) (w # ws2)"
      using adds_append[OF e1(2) e2(2)] by simp
    have "tr' = tr @ (e1 @ e2)" using e1(1) e2(1) by simp
    moreover have "list_all2 (wrote which ms) (w # ws2)
       (map (\<lambda>j'. (ds, Some (chunk_at [of_nat (256 * ?k), of_nat (512 * j')]))) [j..<?k])"
      unfolding l using w e2(3) by simp
    ultimately show ?thesis using a by blast
  qed
qed

lemma single_adds_extent:
  "0 \<le> r \<Longrightarrow> adds extents [(H5Dset_extent ds sz, r)] [(ds, sz)]"
  by (simp add: adds_def observe_def)

lemma keeps_written:
  "\<not> (\<exists>ds mt ms fs dx buf. c = H5Dwrite ds mt ms fs dx buf) \<Longrightarrow>
   written (observe v (c, r)) = written v"
  by (cases c) (simp_all add: observe_def)

lemma keeps_extents:
  "\<not> is_set_extent c \<Longrightarrow> extents (observe v (c, r)) = extents v"
  by (cases c) (simp_all add: observe_def is_set_extent_def)

lemma one_adds_nothing:
  "(\<And>v. F (observe v e) = F v) \<Longrightarrow> adds F [e] []"
  by (simp add: adds_def)

lemma write_extensible_dset_ok:
  assumes run: "write_extensible_dset lib s which step mat tr = (Inr mat', tr')"
  shows "\<exists>evs ws. tr' = tr @ evs \<and>
     unat which < length (dataset s) \<and>
     adds extents evs [(dataset s ! unat which, new_size (two_dee s) step)] \<and>
     adds written evs ws \<and>
     list_all2 (wrote which (memspace s)) ws
       (step_blocks (two_dee s) (dataset s ! unat which) (unat step))"
proof -
  let ?ds = "dataset s ! unat which"
  let ?k = "unat step"
  let ?mid = "\<lambda>fs. if two_dee s then
            thn (write_last_col lib ?ds fs (memspace s) which step 0 mat)
              (\<lambda>mat'. write_last_row lib ?ds fs (memspace s) which step 0 mat')
          else init_and_write_chunk lib ?ds fs (memspace s) mat which (last_base False step)"
  define r where "r = lib tr (H5Dset_extent ?ds (new_size (two_dee s) step))"
  define fs where "fs = lib (tr @ [(H5Dset_extent ?ds (new_size (two_dee s) step), r)]) (H5Dget_space ?ds)"
  have "unat which < length (dataset s) \<and> 0 \<le> r \<and>
      (\<exists>t2. ?mid fs (tr @ [(H5Dset_extent ?ds (new_size (two_dee s) step), r), (H5Dget_space ?ds, fs)]) = (Inr mat', t2) \<and>
            tr' = t2 @ [(H5Sclose fs, lib t2 (H5Sclose fs))])"
    using run unfolding write_extensible_dset_def r_def fs_def by (auto simp: thn_Inr)
  then obtain t2 where
    w: "unat which < length (dataset s)" and r: "0 \<le> r"
    and mid: "?mid fs (tr @ [(H5Dset_extent ?ds (new_size (two_dee s) step), r), (H5Dget_space ?ds, fs)]) = (Inr mat', t2)"
    and tr': "tr' = t2 @ [(H5Sclose fs, lib t2 (H5Sclose fs))]"
    by blast
  define r' where "r' = lib t2 (H5Sclose fs)"
  note tr' = tr'[folded r'_def]
  let ?t1 = "tr @ [(H5Dset_extent ?ds (new_size (two_dee s) step), r), (H5Dget_space ?ds, fs)]"
  have "\<exists>em ws. t2 = ?t1 @ em \<and> adds written em ws \<and>
      list_all2 (wrote which (memspace s)) ws (step_blocks (two_dee s) ?ds ?k) \<and>
      (\<forall>e\<in>set em. chunk_call (fst e))"
  proof (cases "two_dee s")
    case True
    from mid True obtain m1 t1 where
      c: "write_last_col lib ?ds fs (memspace s) which step 0 mat ?t1 = (Inr m1, t1)"
      and rw: "write_last_row lib ?ds fs (memspace s) which step 0 m1 t1 = (Inr mat', t2)"
      by (auto simp: thn_Inr)
    from write_last_col_ok[OF c, of 0] obtain e1 ws1 where e1: "t1 = ?t1 @ e1"
      "adds written e1 ws1"
      "list_all2 (wrote which (memspace s)) ws1
         (map (\<lambda>i'. (?ds, Some (chunk_at [of_nat (256 * i'), of_nat (512 * ?k)]))) [0..<Suc ?k])"
      by auto
    from write_last_row_ok[OF rw, of 0] obtain e2 ws2 where e2: "t2 = t1 @ e2"
      "adds written e2 ws2"
      "list_all2 (wrote which (memspace s)) ws2
         (map (\<lambda>j'. (?ds, Some (chunk_at [of_nat (256 * ?k), of_nat (512 * j')]))) [0..<?k])"
      by auto
    from write_last_col_kinds[OF c] e1(1) have k1: "\<forall>e\<in>set e1. chunk_call (fst e)" by auto
    from write_last_row_kinds[OF rw] e2(1) have k2: "\<forall>e\<in>set e2. chunk_call (fst e)" by auto
    have l: "list_all2 (wrote which (memspace s)) (ws1 @ ws2) (step_blocks (two_dee s) ?ds ?k)"
      unfolding step_blocks_def using True list_all2_appendI[OF e1(3) e2(3)] by simp
    have "t2 = ?t1 @ (e1 @ e2)" using e1(1) e2(1) by simp
    moreover have "\<forall>e\<in>set (e1 @ e2). chunk_call (fst e)" using k1 k2 by auto
    ultimately show ?thesis using adds_append[OF e1(2) e2(2)] l by blast
  next
    case False
    from mid False have c: "init_and_write_chunk lib ?ds fs (memspace s) mat which (last_base False step) ?t1 = (Inr mat', t2)"
      by simp
    from chunk_wrote[OF c] obtain e1 w where
      e1: "t2 = ?t1 @ e1" "adds written e1 [w]"
      and ww: "wrote which (memspace s) w (?ds, Some (chunk_at [of_nat (256 * ?k), 0]))"
      by (auto simp: last_base_of_nat)
    from emitsD[OF emits_chunk c] e1(1) have k1: "\<forall>e\<in>set e1. chunk_call (fst e)" by auto
    have l: "list_all2 (wrote which (memspace s)) [w] (step_blocks (two_dee s) ?ds ?k)"
      unfolding step_blocks_def using False ww by simp
    show ?thesis using e1 k1 l by blast
  qed
  then obtain em ws where em: "t2 = ?t1 @ em" "adds written em ws"
    "list_all2 (wrote which (memspace s)) ws (step_blocks (two_dee s) ?ds ?k)"
    "\<forall>e\<in>set em. chunk_call (fst e)" by blast
  let ?evs = "[(H5Dset_extent ?ds (new_size (two_dee s) step), r), (H5Dget_space ?ds, fs)] @ em @ [(H5Sclose fs, r')]"
  have 1: "tr' = tr @ ?evs" using tr' em(1) by simp
  have x1: "adds extents [(H5Dset_extent ?ds (new_size (two_dee s) step), r), (H5Dget_space ?ds, fs)]
      [(?ds, new_size (two_dee s) step)]"
    using r by (simp add: adds_def observe_def)
  have x2: "adds extents em []"
    using em(4) by (rule adds_nothing) (rule chunk_keeps_extents)
  have x3: "adds extents [(H5Sclose fs, r')] []"
    by (simp add: adds_def observe_def)
  have c1: "adds written [(H5Dset_extent ?ds (new_size (two_dee s) step), r), (H5Dget_space ?ds, fs)] []"
    by (simp add: adds_def observe_def)
  have c3: "adds written [(H5Sclose fs, r')] []"
    by (simp add: adds_def observe_def)
  have 2: "adds extents ?evs [(?ds, new_size (two_dee s) step)]"
    using adds_append[OF x1 adds_append[OF x2 x3]] by simp
  have 3: "adds written ?evs ws"
    using adds_append[OF c1 adds_append[OF em(2) c3]] by simp
  show ?thesis using 1 2 3 w em(3) by blast
qed

subsection \<open>Calls that return\<close>

lemma cell_ok_fits:
  assumes "unat (matrix_u base r c) + unat which \<le> 4294967295"
  shows "cell_ok which base r c"
  unfolding cell_ok_def by (rule cell_exact(1)[OF assms])

lemma cell_ok_wraps:
  assumes "4294967295 < unat (matrix_u base r c)"
  shows "cell_ok which base r c"
proof -
  let ?u = "matrix_u base r c"
  have m: "unat (ucast UINT32_MAX :: hsize_t) = 4294967295"
    by (simp add: UINT32_MAX_def)
  have ul: "unat ?u < 2 ^ 64"
    using unsigned_less[where 'b = 64 and w = ?u and 'a = nat] by simp
  have w: "unat (ucast which :: hsize_t) = unat which"
    using unat_ucast_step[of which] .
  have wl: "unat which < 4294967296" by (rule unat_step_less)
  have "unat ((ucast UINT32_MAX :: hsize_t) - ?u) = 4294967295 + 2 ^ 64 - unat ?u"
    using assms by (simp add: unat_sub_if_size m word_size)
  then have "unat which \<le> unat ((ucast UINT32_MAX :: hsize_t) - ?u)"
    using ul wl by simp
  then show ?thesis
    unfolding cell_ok_def by (simp add: word_le_nat_alt w)
qed

lemma cell_ok_reach:
  assumes w: "unat which \<le> 4"
    and i: "unat (row base) + r \<le> 65279" and j: "unat (col base) + c \<le> 130559"
  shows "cell_ok which base r c"
proof -
  let ?I = "unat (row base) + r" and ?J = "unat (col base) + c"
  have "?I \<le> 130559" using i by simp
  from spec_value_bound[OF this j] have sv: "spec_value ?I ?J < 2 ^ 64" by simp
  have u: "unat (matrix_u base r c) = spec_value ?I ?J"
    by (rule matrix_u_exact) (rule sv)
  show ?thesis
  proof (cases "?J \<le> 65535")
    case True
    have "?I \<le> 65535" using i by simp
    from spec_value_bound[OF this True] have a: "spec_value ?I ?J \<le> 4294967295" by simp
    have "spec_value ?I ?J + unat which \<le> 4294967295"
    proof (cases "?J \<le> ?I")
      case le: True
      have "(?I + 1) * (?I + 1) \<le> 65280 * 65280"
        using i by (intro mult_le_mono) simp_all
      then have "spec_value ?I ?J \<le> 4261478399"
        using le by (simp add: spec_value_def)
      then show ?thesis using w by simp
    next
      case gt: False
      have "?J * ?J \<le> 65535 * 65535"
        using True by (intro mult_le_mono) simp_all
      then have "spec_value ?I ?J \<le> 4294836225 + 65279"
        using gt i by (simp add: spec_value_def)
      then show ?thesis using w by simp
    qed
    then show ?thesis using u by (intro cell_ok_fits) simp
  next
    case False
    then have g: "65536 \<le> ?J" by simp
    have "65536 * 65536 \<le> ?J * ?J"
      using g by (intro mult_le_mono) simp_all
    moreover have "\<not> ?J \<le> ?I" using g i by simp
    ultimately have "4294967295 < spec_value ?I ?J"
      by (simp add: spec_value_def)
    then show ?thesis using u by (intro cell_ok_wraps) simp
  qed
qed

lemma cell_ok_zero: "cell_ok 0 base r c"
  by (simp add: cell_ok_def)

text \<open>
  The assertion fails at step 255 of a dataset other than the first: at the global
  position \<open>(65535, 0)\<close> the value \<open>u\<close> is \<^verbatim>\<open>UINT32_MAX\<close>.
\<close>

lemma cell_fails_255:
  assumes "which \<noteq> 0"
  shows "\<not> cell_ok which \<lparr>row = 65280, col = 0\<rparr> 255 0"
proof -
  have u: "matrix_u \<lparr>row = 65280, col = 0\<rparr> 255 0 = 4294967295"
    by (simp add: matrix_u_def)
  have "unat (ucast which :: hsize_t) = unat which"
    using unat_ucast_step[of which] .
  moreover have "0 < unat which" using assms by (simp add: unat_gt_0)
  ultimately have "\<not> (ucast which :: hsize_t) \<le> 0"
    by (simp add: word_le_nat_alt)
  then show ?thesis
    by (simp add: cell_ok_def u UINT32_MAX_def)
qed


lemma init_matrix_reach:
  assumes "which = 0 \<or> (unat which \<le> 4 \<and> unat (row base) \<le> 65024 \<and> unat (col base) \<le> 130048)"
  shows "\<exists>m. init_matrix mat which base = Inr m"
proof -
  have "cell_ok which base r c" if "r < ROWS" "c < COLS" for r c
  proof (cases "which = 0")
    case True
    then show ?thesis by (simp add: cell_ok_zero)
  next
    case False
    then show ?thesis
      using assms that by (intro cell_ok_reach) (simp_all add: ROWS_def COLS_def)
  qed
  from init_matrix_ok[of which base mat, OF this] show ?thesis by blast
qed

lemma init_and_write_chunk_completes:
  assumes "\<And>tr c. 0 \<le> lib tr c" "\<exists>m. init_matrix mat which base = Inr m"
  shows "\<exists>m t. init_and_write_chunk lib ds fs ms mat which base tr = (Inr m, t)"
proof -
  obtain m where m: "init_matrix mat which base = Inr m" using assms(2) by blast
  have n: "\<not> lib t c < 0" for t c using assms(1)[of t c] by simp
  show ?thesis
    unfolding init_and_write_chunk_def by (simp add: thn_Inr m n)
qed

lemma write_last_col_completes:
  assumes "\<And>tr c. 0 \<le> lib tr c"
    and "\<And>mat b. b \<le> row (last_base True step) \<Longrightarrow>
      \<exists>m. init_matrix mat which \<lparr>row = b, col = col (last_base True step)\<rparr> = Inr m"
  shows "\<exists>m t. write_last_col lib ds fs ms which step b mat tr = (Inr m, t)"
  using assms
proof (induction lib ds fs ms which step b mat tr rule: write_last_col.induct)
  case (1 lib ds fs ms which step b mat tr)
  let ?last = "last_base True step"
  show ?case
  proof (cases "b \<le> row ?last")
    case False
    then show ?thesis by (subst write_last_col.simps) (simp add: Let_def)
  next
    case True
    obtain m1 t1 where c: "init_and_write_chunk lib ds fs ms mat which \<lparr>row = b, col = col ?last\<rparr> tr = (Inr m1, t1)"
      using init_and_write_chunk_completes[of lib mat which _ ds fs ms tr, OF "1.prems"(1) "1.prems"(2)[OF True]]
      by blast
    from "1.IH"[OF refl True c[symmetric] refl "1.prems"]
    obtain m t where "write_last_col lib ds fs ms which step (b + original_dims ! 0) m1 t1 = (Inr m, t)"
      by blast
    then show ?thesis using True c by (subst write_last_col.simps) (simp add: Let_def)
  qed
qed

lemma write_last_row_completes:
  assumes "\<And>tr c. 0 \<le> lib tr c"
    and "\<And>mat b. b < col (last_base True step) \<Longrightarrow>
      \<exists>m. init_matrix mat which \<lparr>row = row (last_base True step), col = b\<rparr> = Inr m"
  shows "\<exists>m t. write_last_row lib ds fs ms which step b mat tr = (Inr m, t)"
  using assms
proof (induction lib ds fs ms which step b mat tr rule: write_last_row.induct)
  case (1 lib ds fs ms which step b mat tr)
  let ?last = "last_base True step"
  show ?case
  proof (cases "b < col ?last")
    case False
    then show ?thesis by (subst write_last_row.simps) (simp add: Let_def)
  next
    case True
    obtain m1 t1 where c: "init_and_write_chunk lib ds fs ms mat which \<lparr>row = row ?last, col = b\<rparr> tr = (Inr m1, t1)"
      using init_and_write_chunk_completes[of lib mat which _ ds fs ms tr, OF "1.prems"(1) "1.prems"(2)[OF True]]
      by blast
    from "1.IH"[OF refl True c[symmetric] refl "1.prems"]
    obtain m t where "write_last_row lib ds fs ms which step (b + original_dims ! 1) m1 t1 = (Inr m, t)"
      by blast
    then show ?thesis using True c by (subst write_last_row.simps) (simp add: Let_def)
  qed
qed

lemma last_base_unat:
  "unat (row (last_base two step)) = 256 * unat step"
  "unat (col (last_base two step)) = (if two then 512 * unat step else 0)"
proof -
  have k: "256 * unat step < 2 ^ 64" "512 * unat step < 2 ^ 64"
    using unat_step_less[of step] by simp_all
  show "unat (row (last_base two step)) = 256 * unat step"
    unfolding last_base_of_nat by (rule unat_of_nat_hsize[OF k(1)])
  show "unat (col (last_base two step)) = (if two then 512 * unat step else 0)"
    unfolding last_base_of_nat using unat_of_nat_hsize[OF k(2)] by simp
qed

lemma write_extensible_dset_completes:
  assumes lib: "\<And>tr c. 0 \<le> lib tr c"
    and which: "unat which < length (dataset s)"
    and reach: "which = 0 \<or> (unat which \<le> 4 \<and> unat step \<le> 254)"
  shows "\<exists>mat' tr'. write_extensible_dset lib s which step mat tr = (Inr mat', tr')"
proof -
  have n: "\<not> lib t c < 0" "lib t c \<noteq> badhid" for t c
    using lib[of t c] by (simp_all add: badhid_def H5I_INVALID_HID_def)
  let ?ds = "dataset s ! unat which"
  have init: "\<exists>m. init_matrix mat which base = Inr m"
    if "unat (row base) \<le> 256 * unat step" "unat (col base) \<le> 512 * unat step" for mat base
    using reach that by (intro init_matrix_reach) auto
  have icol: "\<exists>m. init_matrix mat which \<lparr>row = b, col = col (last_base True step)\<rparr> = Inr m"
    if "b \<le> row (last_base True step)" for mat b
    using that by (intro init) (simp_all add: word_le_nat_alt last_base_unat)
  have irow: "\<exists>m. init_matrix mat which \<lparr>row = row (last_base True step), col = b\<rparr> = Inr m"
    if "b < col (last_base True step)" for mat b
    using that by (intro init) (simp_all add: word_less_nat_alt last_base_unat)
  have mid: "\<exists>m t. (if two_dee s then
            thn (write_last_col lib ?ds fs (memspace s) which step 0 mat)
              (\<lambda>mat'. write_last_row lib ?ds fs (memspace s) which step 0 mat')
          else init_and_write_chunk lib ?ds fs (memspace s) mat which (last_base False step)) t0 = (Inr m, t)"
    for fs t0
  proof (cases "two_dee s")
    case True
    obtain m1 t1 where 1: "write_last_col lib ?ds fs (memspace s) which step 0 mat t0 = (Inr m1, t1)"
      using write_last_col_completes[of lib step which, OF lib icol] by blast
    obtain m2 t2 where 2: "write_last_row lib ?ds fs (memspace s) which step 0 m1 t1 = (Inr m2, t2)"
      using write_last_row_completes[of lib step which, OF lib irow] by blast
    show ?thesis using True 1 2 by (auto simp: thn_Inr)
  next
    case False
    have "\<exists>m. init_matrix mat which (last_base False step) = Inr m"
      by (intro init) (simp_all add: last_base_unat)
    from init_and_write_chunk_completes[of lib mat which "last_base False step", OF lib this]
    show ?thesis using False by simp
  qed
  show ?thesis
    unfolding write_extensible_dset_def
    using mid by (simp add: thn_Inr which n)
qed

text \<open>
  At step 255 of a dataset other than the first, in one dimension, the call does not
  return, whatever the library does: the assertion of \<^verbatim>\<open>init_matrix\<close> fails for the
  block at \<open>(65280, 0)\<close>, or a library call has failed before.
\<close>

lemma write_extensible_dset_stops:
  assumes "which \<noteq> 0" "\<not> two_dee s"
  shows "write_extensible_dset lib s which 255 mat tr \<noteq> (Inr mat', tr')"
proof
  assume "write_extensible_dset lib s which 255 mat tr = (Inr mat', tr')"
  then obtain t0 t1 fs where
    "init_and_write_chunk lib (dataset s ! unat which) fs (memspace s) mat which (last_base False 255) t0 = (Inr mat', t1)"
    using assms(2) unfolding write_extensible_dset_def by (auto simp: thn_Inr)
  from init_and_write_chunk_ok[OF this]
  have "init_matrix mat which (last_base False 255) = Inr mat'" by blast
  moreover have "last_base False 255 = \<lparr>row = 65280, col = 0\<rparr>"
    by (simp add: last_base_def original_dims_def ROWS_def)
  moreover have "init_matrix mat which \<lparr>row = 65280, col = 0\<rparr> = Inl AssertFailed"
    by (rule init_matrix_fail[of 255 0, OF _ _ cell_fails_255[OF assms(1)]])
       (simp_all add: ROWS_def COLS_def)
  ultimately show False by simp
qed


lemma step_less_nsteps: "step < (n :: uint32_t) \<Longrightarrow> unat step < 4294967295"
  using unat_step_less[of n] by (simp add: word_less_nat_alt)

lemma no_view_fields [simp]:
  "extents no_view = []" "written no_view = []" "chunks_written no_view = []" "datasets no_view = []"
  by (simp_all add: no_view_def chunks_written_def datasets_def)

lemma step_blocks_set:
  "set (step_blocks two ds k) =
     (if two then
        {(ds, Some (chunk_at [of_nat (256 * i), of_nat (512 * k)])) | i. i \<le> k} \<union>
        {(ds, Some (chunk_at [of_nat (256 * k), of_nat (512 * j)])) | j. j < k}
      else {(ds, Some (chunk_at [of_nat (256 * k), 0]))})"
proof -
  have b: "set (map f [0..<n]) = {f j | j. j < n}"
    for f :: "nat \<Rightarrow> hid_t \<times> hyperslab option" and n
    by auto
  show ?thesis
    unfolding step_blocks_def by (simp only: set_append b split: if_splits) (simp add: less_Suc_eq_le)
qed

text \<open>
  Claim C2, as amended.  Take any step that the loop of \<^verbatim>\<open>main\<close> passes
  (\<^verbatim>\<open>step < s.nsteps\<close>) and any dataset.  Whatever the library does, a call of
  \<^verbatim>\<open>write_extensible_dset\<close> that returns has set the extent of the dataset once, to
  \<open>256 (k + 1)\<close> rows by 512 columns in one dimension and by \<open>512 (k + 1)\<close> columns in two,
  and has written these blocks of 256 by 512 elements and no others: in one dimension
  the block at \<open>(256 k, 0)\<close>; in two dimensions the blocks at \<open>(256 i, 512 k)\<close> for
  \<open>i \<le> k\<close> and at \<open>(256 k, 512 j)\<close> for \<open>j < k\<close>; each from a buffer of \<^verbatim>\<open>uint32_t\<close> read
  through \<^verbatim>\<open>s.memspace\<close> that holds what \<^verbatim>\<open>init_matrix\<close> stores for the block.  And the call
  does return when no library call fails, for the first dataset at every such step and
  for the datasets 1 to 4 at every step \<open>k \<le> 254\<close>.
\<close>

theorem write_extensible_dset_blocks:
  assumes "step < nsteps s"
  shows "(\<forall>mat' tr'. write_extensible_dset lib s which step mat tr = (Inr mat', tr') \<longrightarrow>
       (\<exists>evs. tr' = tr @ evs \<and>
          extents (view_of evs) =
            [(dataset s ! unat which,
              [of_nat (256 * (unat step + 1)),
               of_nat (if two_dee s then 512 * (unat step + 1) else 512)])] \<and>
          chunks_written (view_of evs) =
            step_blocks (two_dee s) (dataset s ! unat which) (unat step) \<and>
          set (chunks_written (view_of evs)) =
            (if two_dee s then
               {(dataset s ! unat which,
                 Some (chunk_at [of_nat (256 * i), of_nat (512 * unat step)])) | i. i \<le> unat step} \<union>
               {(dataset s ! unat which,
                 Some (chunk_at [of_nat (256 * unat step), of_nat (512 * j)])) | j. j < unat step}
             else {(dataset s ! unat which, Some (chunk_at [of_nat (256 * unat step), 0]))}) \<and>
          (\<forall>w\<in>set (written (view_of evs)).
             w_mem_type w = H5T_NATIVE_UINT32 \<and> w_mem_space w = memspace s \<and>
             holds_chunk which w))) \<and>
     ((\<forall>tr c. 0 \<le> lib tr c) \<and> unat which < length (dataset s) \<and> length (dataset s) = NSETS \<and>
      (which = 0 \<or> unat step \<le> 254) \<longrightarrow>
       (\<exists>mat' tr'. write_extensible_dset lib s which step mat tr = (Inr mat', tr')))"
proof (intro conjI allI impI)
  fix mat' tr'
  assume run: "write_extensible_dset lib s which step mat tr = (Inr mat', tr')"
  from write_extensible_dset_ok[OF run] obtain evs ws where
    evs: "tr' = tr @ evs"
    and x: "adds extents evs [(dataset s ! unat which, new_size (two_dee s) step)]"
    and c: "adds written evs ws"
    and l: "list_all2 (wrote which (memspace s)) ws
       (step_blocks (two_dee s) (dataset s ! unat which) (unat step))"
    by blast
  have x': "extents (view_of evs) = [(dataset s ! unat which, new_size (two_dee s) step)]"
    using adds_view_of[OF x] by simp
  have w': "written (view_of evs) = ws"
    using adds_view_of[OF c] by simp
  have c': "chunks_written (view_of evs) = step_blocks (two_dee s) (dataset s ! unat which) (unat step)"
    unfolding chunks_written_def w' by (rule wrote_all(1)[OF l])
  have p: "\<forall>w\<in>set (written (view_of evs)).
      w_mem_type w = H5T_NATIVE_UINT32 \<and> w_mem_space w = memspace s \<and> holds_chunk which w"
    unfolding w' by (rule wrote_all(2)[OF l])
  show "\<exists>evs. tr' = tr @ evs \<and>
          extents (view_of evs) =
            [(dataset s ! unat which,
              [of_nat (256 * (unat step + 1)),
               of_nat (if two_dee s then 512 * (unat step + 1) else 512)])] \<and>
          chunks_written (view_of evs) =
            step_blocks (two_dee s) (dataset s ! unat which) (unat step) \<and>
          set (chunks_written (view_of evs)) =
            (if two_dee s then
               {(dataset s ! unat which,
                 Some (chunk_at [of_nat (256 * i), of_nat (512 * unat step)])) | i. i \<le> unat step} \<union>
               {(dataset s ! unat which,
                 Some (chunk_at [of_nat (256 * unat step), of_nat (512 * j)])) | j. j < unat step}
             else {(dataset s ! unat which, Some (chunk_at [of_nat (256 * unat step), 0]))}) \<and>
          (\<forall>w\<in>set (written (view_of evs)).
             w_mem_type w = H5T_NATIVE_UINT32 \<and> w_mem_space w = memspace s \<and>
             holds_chunk which w)"
    using evs x' c' p step_blocks_set[of "two_dee s" "dataset s ! unat which" "unat step"]
      new_size_of_nat[OF step_less_nsteps[OF assms], of "two_dee s"]
    by (intro exI[of _ evs]) simp
next
  assume h: "(\<forall>tr c. 0 \<le> lib tr c) \<and> unat which < length (dataset s) \<and>
     length (dataset s) = NSETS \<and> (which = 0 \<or> unat step \<le> 254)"
  then have "unat which \<le> 4" by (simp add: NSETS_def)
  then show "\<exists>mat' tr'. write_extensible_dset lib s which step mat tr = (Inr mat', tr')"
    using h by (intro write_extensible_dset_completes) auto
qed

text \<open>
  The amended claim C2 at step 1 of dataset 1 in two dimensions, with a library whose
  calls all return 1: the call returns, the extent becomes 512 by 1024, and the blocks
  at \<open>(0, 512)\<close>, \<open>(256, 512)\<close> and \<open>(256, 0)\<close> are written from the memory space 3, with
  the first elements \<open>512\<^sup>2 + 0 + 1\<close>, \<open>512\<^sup>2 + 256 + 1\<close> and \<open>257\<^sup>2 - 1 + 1\<close>.
\<close>

theorem write_extensible_dset_blocks_witness:
  "\<exists>mat' tr'.
     write_extensible_dset (\<lambda>tr c. 1)
       (ALL_HID_INITIALIZER\<lparr>dataset := [7, 8, 9, 10, 11], memspace := 3, two_dee := True\<rparr>)
       1 1 (\<lambda>r c. 0) [] = (Inr mat', tr') \<and>
     extents (view_of tr') = [(8, [512, 1024])] \<and>
     chunks_written (view_of tr') =
       [(8, Some (chunk_at [0, 512])), (8, Some (chunk_at [256, 512])), (8, Some (chunk_at [256, 0]))] \<and>
     map w_mem_space (written (view_of tr')) = [3, 3, 3] \<and>
     map (\<lambda>w. w_buf w 0 0) (written (view_of tr')) = [262145, 262401, 66049]"
proof -
  let ?s = "ALL_HID_INITIALIZER\<lparr>dataset := [7, 8, 9, 10, 11], memspace := 3, two_dee := True\<rparr>"
  have n: "(1 :: uint32_t) < nsteps ?s" by (simp add: ALL_HID_INITIALIZER_def)
  note T = write_extensible_dset_blocks[OF n, of "\<lambda>tr c. 1" 1 "\<lambda>r c. 0" "[]"]
  have "\<exists>mat' tr'. write_extensible_dset (\<lambda>tr c. 1) ?s 1 1 (\<lambda>r c. 0) [] = (Inr mat', tr')"
    using T by (simp add: NSETS_def)
  then obtain mat' tr' where
    run: "write_extensible_dset (\<lambda>tr c. 1) ?s 1 1 (\<lambda>r c. 0) [] = (Inr mat', tr')"
    by blast
  from T run have
    x: "extents (view_of tr') = [(8, [512, 1024])]"
    and c: "chunks_written (view_of tr') =
       [(8, Some (chunk_at [0, 512])), (8, Some (chunk_at [256, 512])), (8, Some (chunk_at [256, 0]))]"
    and p: "\<forall>w\<in>set (written (view_of tr')).
       w_mem_type w = H5T_NATIVE_UINT32 \<and> w_mem_space w = 3 \<and> holds_chunk 1 w"
    by (simp_all add: step_blocks_def upt_rec)
  from c obtain w1 w2 w3 where
    ws: "written (view_of tr') = [w1, w2, w3]"
    and s: "w_file_sel w1 = Some (chunk_at [0, 512])" "w_file_sel w2 = Some (chunk_at [256, 512])"
      "w_file_sel w3 = Some (chunk_at [256, 0])"
    unfolding chunks_written_def by (auto simp: map_eq_Cons_conv)
  have h: "holds_chunk 1 w1" "holds_chunk 1 w2" "holds_chunk 1 w3"
    "w_mem_space w1 = 3" "w_mem_space w2 = 3" "w_mem_space w3 = 3"
    using p ws by simp_all
  have "w_buf w1 0 0 = 262145" "w_buf w2 0 0 = 262401" "w_buf w3 0 0 = 66049"
    using h(1,2,3) s
    by (simp_all add: holds_chunk_def chunk_at_def ROWS_def COLS_def cell_val_def matrix_u_def)
  then show ?thesis using run x c ws h by (intro exI[of _ mat'] exI[of _ tr']) simp
qed

text \<open>
  Claim C2 as stated, for every step and every dataset, fails at step 255 of the
  dataset 1 in one dimension, with a library whose calls all succeed (they all return
  1): the extent is set to 65536 by 512, then the assertion \<^verbatim>\<open>UINT32_MAX - u >= which\<close>
  of \<^verbatim>\<open>init_matrix\<close> fails at the element \<open>(65535, 0)\<close>, where \<open>u\<close> is \<^verbatim>\<open>UINT32_MAX\<close>, and the
  program stops before the block at \<open>(65280, 0)\<close> is written.
\<close>

theorem write_extensible_dset_aborts:
  "write_extensible_dset (\<lambda>tr c. 1)
     (ALL_HID_INITIALIZER\<lparr>dataset := [7, 8, 9, 10, 11], nsteps := 256\<rparr>) 1 255 (\<lambda>r c. 0) [] =
     (Inl AssertFailed, [(H5Dset_extent 8 [65536, 512], 1), (H5Dget_space 8, 1)]) \<and>
   two_dee (ALL_HID_INITIALIZER\<lparr>dataset := [7, 8, 9, 10, 11], nsteps := 256\<rparr>) = False \<and>
   (255 :: uint32_t) < nsteps (ALL_HID_INITIALIZER\<lparr>dataset := [7, 8, 9, 10, 11], nsteps := 256\<rparr>) \<and>
   chunks_written (view_of [(H5Dset_extent 8 [65536, 512], 1), (H5Dget_space 8, 1)]) = [] \<and>
   matrix_u \<lparr>row = 65280, col = 0\<rparr> 255 0 = ucast UINT32_MAX"
proof -
  have i: "init_matrix (\<lambda>r c. 0) 1 \<lparr>row = 65280, col = 0\<rparr> = Inl AssertFailed"
    by (rule init_matrix_fail[of 255 0, OF _ _ cell_fails_255]) (simp_all add: ROWS_def COLS_def)
  have "write_extensible_dset (\<lambda>tr c. 1)
     (ALL_HID_INITIALIZER\<lparr>dataset := [7, 8, 9, 10, 11], nsteps := 256\<rparr>) 1 255 (\<lambda>r c. 0) [] =
     (Inl AssertFailed, [(H5Dset_extent 8 [65536, 512], 1), (H5Dget_space 8, 1)])"
    unfolding write_extensible_dset_def init_and_write_chunk_def
    by (simp add: thn_def lib_call_def errx_if_def assert_def ret_def stop_def lift_def
        ALL_HID_INITIALIZER_def new_size_def last_base_def original_dims_def ROWS_def COLS_def
        badhid_def H5I_INVALID_HID_def i)
  moreover have "chunks_written (view_of [(H5Dset_extent 8 [65536, 512], 1), (H5Dget_space 8, 1)]) = []"
    by (simp add: view_of_def observe_def chunks_written_def no_view_def)
  moreover have "matrix_u \<lparr>row = 65280, col = 0\<rparr> 255 0 = ucast UINT32_MAX"
    by (simp add: matrix_u_def UINT32_MAX_def)
  ultimately show ?thesis by (simp add: ALL_HID_INITIALIZER_def)
qed

subsection \<open>The flags of the command line\<close>

declare getopt_letters.simps [simp del]

lemma handle_option_flags:
  assumes "handle_option s v ch a = Inr (s1, v1)"
  shows "use_vfd_swmr s1 = (use_vfd_swmr s \<and> ch \<noteq> CHR ''S'')"
    and "wait_for_signal s1 = (wait_for_signal s \<and> ch \<noteq> CHR ''W'')"
    and "progname s1 = progname s"
  using assms
  by (auto simp: handle_option_def option_d_def option_n_def option_u_def
      split: if_splits prod.splits)

lemma state_init_loop_flags:
  assumes "state_init_loop s v st = Inr (s', v', left)"
  shows "use_vfd_swmr s' = (use_vfd_swmr s \<and> CHR ''S'' \<notin> set (getopt_letters st)) \<and>
         wait_for_signal s' = (wait_for_signal s \<and> CHR ''W'' \<notin> set (getopt_letters st))"
  using assms
proof (induction s v st rule: state_init_loop.induct)
  case (1 s v st)
  obtain r st' where g: "getopt optstring st = (r, st')" by (cases "getopt optstring st") blast
  show ?case
  proof (cases r)
    case None
    then show ?thesis using "1.prems" g
      by (subst (asm) state_init_loop.simps, subst getopt_letters.simps, subst getopt_letters.simps) simp
  next
    case (Some x)
    obtain ch a where x: "x = (ch, a)" by (cases x)
    obtain s1 v1 where h: "handle_option s v ch a = Inr (s1, v1)"
      and rec: "state_init_loop s1 v1 st' = Inr (s', v', left)"
      using "1.prems" g Some x
      by (subst (asm) state_init_loop.simps) (auto split: sum.splits)
    have l: "getopt_letters st = ch # getopt_letters st'"
      using g Some x by (subst getopt_letters.simps) simp
    from "1.IH"[OF g[symmetric] Some x[symmetric] h refl rec]
    show ?thesis
      unfolding l using handle_option_flags(1,2)[OF h] by auto
  qed
qed

lemma parse_args_flags:
  assumes "parse_args v argv0 args = Inr (s, v')"
  shows "use_vfd_swmr s \<longleftrightarrow> CHR ''S'' \<notin> set (getopt_letters ([], args, []))"
    and "wait_for_signal s \<longleftrightarrow> CHR ''W'' \<notin> set (getopt_letters ([], args, []))"
proof -
  from assms obtain pn left where
    "state_init_loop (ALL_HID_INITIALIZER\<lparr>progname := pn\<rparr>) v ([], args, []) = Inr (s, v', left)"
    by (auto simp: parse_args_def split: sum.splits if_splits)
  from state_init_loop_flags[OF this]
  show "use_vfd_swmr s \<longleftrightarrow> CHR ''S'' \<notin> set (getopt_letters ([], args, []))"
    and "wait_for_signal s \<longleftrightarrow> CHR ''W'' \<notin> set (getopt_letters ([], args, []))"
    by (simp_all add: ALL_HID_INITIALIZER_def)
qed

subsection \<open>The parts of \<^verbatim>\<open>main\<close>\<close>

lemma create_block_adds:
  assumes "0 \<le> fs" "0 \<le> dcpl" "0 \<le> r1" "0 \<le> ds" "0 \<le> r2"
  shows "adds datasets
     [(H5Screate_simple 2 original_dims
         (Some (if two then two_dee_max_dims else one_dee_max_dims)), fs),
      (H5Pcreate H5P_DATASET_CREATE, dcpl),
      (H5Pset_chunk dcpl 2 chunk_dims, r1),
      (H5Dcreate2 f (''/dataset-'' @ decimal k) H5T_STD_U32BE fs H5P_DEFAULT dcpl H5P_DEFAULT, ds),
      (H5Sclose fs, r2)]
     [dataset_entry two k]"
  using assms
  by (simp add: adds_def observe_def datasets_def dataset_entry_def original_dims_def chunk_dims_def
      two_dee_max_dims_def one_dee_max_dims_def ROWS_def COLS_def)

lemma unat_of_nat_small: "k < 4294967296 \<Longrightarrow> unat (of_nat k :: uint32_t) = k"
  by (simp add: unat_of_nat)

lemma create_all_ok:
  assumes "create_all lib n which s tr = (Inr s', tr')" "which + n \<le> NSETS"
  shows "\<exists>evs d. tr' = tr @ evs \<and> s' = s\<lparr>dataset := d\<rparr> \<and> length d = length (dataset s) \<and>
     adds datasets evs (map (dataset_entry (two_dee s)) [which..<which + n])"
  using assms
proof (induction n arbitrary: which s tr)
  case 0
  then show ?case by (auto intro: exI[of _ "dataset s"])
next
  case (Suc n)
  obtain r1 t1 where c: "create_extensible_dset lib s (of_nat which) tr = (r1, t1)"
    by (cases "create_extensible_dset lib s (of_nat which) tr") blast
  obtain s1 where s1: "r1 = Inr s1" and rec: "create_all lib n (Suc which) s1 t1 = (Inr s', tr')"
    using Suc.prems(1) c by (cases r1) auto
  have w: "unat (of_nat which :: uint32_t) = which"
    using Suc.prems(2) by (intro unat_of_nat_small) (simp add: NSETS_def)
  from create_extensible_dset_ok[OF c[unfolded s1]] obtain fs dcpl q1 ds q2 where
    t1: "t1 = tr @
       [(H5Screate_simple 2 original_dims
           (Some (if two_dee s then two_dee_max_dims else one_dee_max_dims)), fs),
        (H5Pcreate H5P_DATASET_CREATE, dcpl),
        (H5Pset_chunk dcpl 2 chunk_dims, q1),
        (H5Dcreate2 (h5file s) (''/dataset-'' @ decimal which) H5T_STD_U32BE fs H5P_DEFAULT
           dcpl H5P_DEFAULT, ds),
        (H5Sclose fs, q2)]"
    and q: "0 \<le> fs" "0 \<le> dcpl" "0 \<le> q1" "0 \<le> ds" "0 \<le> q2"
    and s1': "s1 = s\<lparr>dataset := (dataset s)[which := ds]\<rparr>"
    unfolding w by blast
  from Suc.IH[OF rec] Suc.prems(2) obtain e2 d where
    e2: "tr' = t1 @ e2" "s' = s1\<lparr>dataset := d\<rparr>" "length d = length (dataset s1)"
    "adds datasets e2 (map (dataset_entry (two_dee s1)) [Suc which..<Suc which + n])"
    by auto
  have l: "[which..<which + Suc n] = which # [Suc which..<Suc which + n]"
    by (simp add: upt_conv_Cons)
  have two: "two_dee s1 = two_dee s" by (simp add: s1')
  have a: "adds datasets (drop (length tr) t1 @ e2)
      (map (dataset_entry (two_dee s)) [which..<which + Suc n])"
    using adds_append[OF create_block_adds[OF q, of "two_dee s" "h5file s" which] e2(4)]
    unfolding l two t1 by (simp del: upt_Suc)
  have b: "tr' = tr @ (drop (length tr) t1 @ e2)"
    unfolding e2(1) t1 by simp
  have c: "s' = s\<lparr>dataset := d\<rparr>"
    unfolding e2(2) s1' by simp
  have d: "length d = length (dataset s)"
    unfolding e2(3) s1' by simp
  show ?case
    using a b c d by blast
qed

lemma state_init_ok:
  assumes "state_init lib v argv0 args tr0 = (Inr (s, v'), t1)"
  shows "\<exists>s0 sp out. parse_args v argv0 args = Inr (s0, v') \<and>
     s = s0\<lparr>dataset := replicate NSETS badhid, memspace := sp, output_file := out\<rparr>"
proof (cases "parse_args v argv0 args")
  case (Inl e)
  then show ?thesis using assms unfolding state_init_def by (simp add: thn_def lift_def)
next
  case (Inr p)
  obtain s0 v0 where p: "p = (s0, v0)" by (cases p) blast
  show ?thesis
    using assms unfolding state_init_def Inr p
    by (auto simp: thn_Inr)
qed

lemma main_open_ok:
  assumes "main_open lib v argv0 args tr0 = (Inr (s, h), t1)"
  shows "\<exists>s0 v' sp out f. parse_args v argv0 args = Inr (s0, v') \<and>
     s = s0\<lparr>dataset := replicate NSETS badhid, memspace := sp, output_file := out, h5file := f\<rparr>"
proof -
  obtain r0 t0 where c: "state_init lib v argv0 args tr0 = (r0, t0)"
    by (cases "state_init lib v argv0 args tr0") blast
  show ?thesis
  proof (cases r0)
    case (Inl e)
    then show ?thesis using assms c unfolding main_open_def by (simp add: thn_def)
  next
    case (Inr p)
    obtain s1 v1 where p: "p = (s1, v1)" by (cases p) blast
    from state_init_ok[OF c[unfolded Inr p]] obtain s0 sp out where
      s0: "parse_args v argv0 args = Inr (s0, v1)"
      "s1 = s0\<lparr>dataset := replicate NSETS badhid, memspace := sp, output_file := out\<rparr>"
      by blast
    have "\<exists>f. s = s1\<lparr>h5file := f\<rparr>"
      using assms c unfolding main_open_def Inr p
      by (auto simp: thn_Inr)
    then show ?thesis using s0 by auto
  qed
qed

lemma write_all_count:
  assumes "write_all lib s step n which mat tr = (Inr m, tr')"
  shows "\<exists>evs xs. tr' = tr @ evs \<and> adds extents evs xs \<and> length xs = n"
  using assms
proof (induction n arbitrary: which mat tr)
  case 0
  then show ?case by (auto intro: exI[of _ "[]"])
next
  case (Suc n)
  obtain r1 t1 where c: "write_extensible_dset lib s (of_nat which) (of_nat step) mat tr = (r1, t1)"
    by (cases "write_extensible_dset lib s (of_nat which) (of_nat step) mat tr") blast
  let ?ns = "(nanosleep (update_interval s), lib t1 (nanosleep (update_interval s)))"
  obtain m1 where m1: "r1 = Inr m1"
    and rec: "write_all lib s step n (Suc which) m1 (t1 @ [?ns]) = (Inr m, tr')"
    using Suc.prems c by (cases r1) (auto simp: lib_call_def)
  from write_extensible_dset_ok[OF c[unfolded m1]] obtain e1 where
    e1: "t1 = tr @ e1"
    "adds extents e1 [(dataset s ! unat (of_nat which :: uint32_t), new_size (two_dee s) (of_nat step))]"
    by blast
  have ns: "adds extents [?ns] []" by (simp add: adds_def observe_def)
  from Suc.IH[OF rec] obtain e2 xs where e2: "tr' = (t1 @ [?ns]) @ e2" "adds extents e2 xs" "length xs = n"
    by blast
  show ?case
    using adds_append[OF e1(2) adds_append[OF ns e2(2)]] e1(1) e2(1,3)
    by (intro exI[of _ "e1 @ [?ns] @ e2"] exI[of _ "_ # xs"]) simp
qed

lemma epochs_count:
  assumes "epochs lib s n step mat tr = (Inr m, tr')"
  shows "\<exists>evs xs. tr' = tr @ evs \<and> adds extents evs xs \<and> length xs = NSETS * n"
  using assms
proof (induction n arbitrary: step mat tr)
  case 0
  then show ?case by (auto intro: exI[of _ "[]"])
next
  case (Suc n)
  obtain r1 t1 where c: "write_all lib s step NSETS 0 mat tr = (r1, t1)"
    by (cases "write_all lib s step NSETS 0 mat tr") blast
  obtain m1 where m1: "r1 = Inr m1" and rec: "epochs lib s n (Suc step) m1 t1 = (Inr m, tr')"
    using Suc.prems c by (cases r1) auto
  from write_all_count[OF c[unfolded m1]] obtain e1 x1 where
    e1: "t1 = tr @ e1" "adds extents e1 x1" "length x1 = NSETS" by blast
  from Suc.IH[OF rec] obtain e2 x2 where
    e2: "tr' = t1 @ e2" "adds extents e2 x2" "length x2 = NSETS * n" by blast
  show ?case
    using adds_append[OF e1(2) e2(2)] e1(1,3) e2(1,3)
    by (intro exI[of _ "e1 @ e2"] exI[of _ "x1 @ x2"]) simp
qed

lemma main_cases:
  assumes "main lib v argv0 args mat0 tr0 = (res, tr)"
  obtains
    (open_failed) e where "main_open lib v argv0 args tr0 = (Inl e, tr)" "res = Inl e"
  | (create_failed) s h t1 e where
      "main_open lib v argv0 args tr0 = (Inr (s, h), t1)"
      "create_all lib NSETS 0 s t1 = (Inl e, tr)" "res = Inl e"
  | (epochs_failed) s h t1 s' t2 e where
      "main_open lib v argv0 args tr0 = (Inr (s, h), t1)"
      "create_all lib NSETS 0 s t1 = (Inr s', t2)"
      "epochs lib s' (unat (nsteps s')) 0 mat0 t2 = (Inl e, tr)" "res = Inl e"
  | (closing) s h t1 s' t2 m t3 where
      "main_open lib v argv0 args tr0 = (Inr (s, h), t1)"
      "create_all lib NSETS 0 s t1 = (Inr s', t2)"
      "epochs lib s' (unat (nsteps s')) 0 mat0 t2 = (Inr m, t3)"
      "main_close lib s' h t3 = (res, tr)"
  using assms unfolding main_def
  by (auto simp: thn_def split: prod.splits sum.splits)

lemma before_append:
  "\<not> occurs K a \<Longrightarrow> before K (a @ b) = a @ before K b"
  by (simp add: before_def occurs_def takeWhile_append2)

lemma since_append:
  "\<not> occurs K a \<Longrightarrow> since K (a @ b) = since K b"
  by (simp add: since_def occurs_def dropWhile_append2)

lemma before_none: "\<not> occurs K a \<Longrightarrow> before K a = a"
  by (simp add: before_def occurs_def)

lemma before_hd: "K (fst e) \<Longrightarrow> before K (e # es) = []"
  by (simp add: before_def)

lemma since_hd: "K (fst e) \<Longrightarrow> since K (e # es) = e # es"
  by (simp add: since_def)

lemma occurs_append: "occurs K (a @ b) \<longleftrightarrow> occurs K a \<or> occurs K b"
  by (auto simp: occurs_def)

lemma occurs_before: "occurs K' (before K b) \<Longrightarrow> occurs K' b"
  unfolding occurs_def before_def by (auto dest: set_takeWhileD)

lemma kinds_exclude:
  assumes "\<forall>e\<in>set evs. K (fst e)" "\<And>c. K c \<Longrightarrow> \<not> K' c"
  shows "\<not> occurs K' evs"
  using assms unfolding occurs_def by blast

lemma kinds_before:
  assumes "\<forall>e\<in>set evs. K (fst e)"
  shows "\<forall>e\<in>set (before K' evs). K (fst e)"
  using assms unfolding before_def by (auto dest: set_takeWhileD)

lemma open_keeps_datasets: "open_call c \<Longrightarrow> datasets (observe v (c, r)) = datasets v"
  by (cases c) (simp_all add: observe_def datasets_def open_call_def)

lemma epoch_keeps_datasets: "epoch_call c \<Longrightarrow> datasets (observe v (c, r)) = datasets v"
  by (cases c) (simp_all add: observe_def datasets_def epoch_call_def)

lemma close_keeps_datasets: "close_call c \<Longrightarrow> datasets (observe v (c, r)) = datasets v"
  by (cases c) (simp_all add: observe_def datasets_def close_call_def)

lemma open_not_set_extent: "open_call c \<Longrightarrow> \<not> is_set_extent c"
  by (cases c) (simp_all add: open_call_def is_set_extent_def)

lemma create_not_set_extent: "create_call c \<Longrightarrow> \<not> is_set_extent c"
  by (cases c) (simp_all add: create_call_def is_set_extent_def)

lemma close_not_set_extent: "close_call c \<Longrightarrow> \<not> is_set_extent c"
  by (cases c) (simp_all add: close_call_def is_set_extent_def)

lemma open_not_close: "open_call c \<Longrightarrow> \<not> close_call c"
  by (cases c) (simp_all add: open_call_def close_call_def)

lemma create_not_close: "create_call c \<Longrightarrow> \<not> close_call c"
  by (cases c) (simp_all add: create_call_def close_call_def)

lemma epoch_not_close: "epoch_call c \<Longrightarrow> \<not> close_call c"
  by (cases c) (simp_all add: epoch_call_def close_call_def)

lemma await_is_close: "is_await c \<Longrightarrow> close_call c"
  by (cases c) (simp_all add: is_await_def close_call_def)

lemma fclose_is_close: "is_fclose c \<Longrightarrow> close_call c"
  by (cases c) (simp_all add: is_fclose_def close_call_def)

lemma not_close_occurs:
  "\<not> occurs close_call evs \<Longrightarrow> \<not> occurs is_await evs \<and> \<not> occurs is_fclose evs"
  unfolding occurs_def by (blast dest: await_is_close fclose_is_close)

lemma adds_view_of_append:
  "adds F a xs \<Longrightarrow> adds F b ys \<Longrightarrow> F no_view = [] \<Longrightarrow> F (view_of (a @ b)) = xs @ ys"
  using adds_view_of[OF adds_append] by blast

text \<open>The end of \<^verbatim>\<open>main\<close>.\<close>

lemma main_close_shape:
  assumes "main_close lib s h t3 = (res, tr)"
  shows "\<exists>cl. tr = t3 @ cl \<and> cl \<noteq> [] \<and>
     map fst cl =
       take (length cl)
         ((if use_vfd_swmr s \<and> wait_for_signal s then [await_signal (h5file s)] else []) @
          [restore_signals, H5Pclose (fapl h), H5Pclose (fcpl h), H5Fclose (h5file s), free]) \<and>
     (res = Inr () \<longrightarrow> length cl =
        length ((if use_vfd_swmr s \<and> wait_for_signal s then [await_signal (h5file s)] else []) @
          [restore_signals, H5Pclose (fapl h), H5Pclose (fcpl h), H5Fclose (h5file s), free]))"
  using assms unfolding main_close_def
  by (auto simp: thn_def lib_call_def ret_def errx_if_def stop_def split: if_splits)

lemma dataset_entries:
  "map (dataset_entry two) [0..<NSETS] =
     map (\<lambda>nm. (nm, Some ([256, 512],
                  Some (if two then [H5S_UNLIMITED, H5S_UNLIMITED] else [H5S_UNLIMITED, 512])),
                Some [256, 512]))
       [''/dataset-0'', ''/dataset-1'', ''/dataset-2'', ''/dataset-3'', ''/dataset-4'']"
  by (simp add: NSETS_def dataset_entry_def upt_rec decimal.simps char_of_eq_iff)

subsection \<open>Runs in which no library call fails\<close>

lemma main_open_completes:
  assumes lib: "\<And>tr c. 0 \<le> lib tr c" "\<And>tr n. lib tr (malloc n) \<noteq> 0"
    and parse: "parse_args v argv0 args = Inr (s0, v')"
    and len: "length (progname s0) + 3 < PATH_MAX"
  shows "\<exists>s h t1. main_open lib v argv0 args tr = (Inr (s, h), t1)"
proof -
  have n: "\<not> lib t c < 0" "lib t c \<noteq> badhid" for t c
    using lib(1)[of t c] by (simp_all add: badhid_def H5I_INVALID_HID_def)
  have i: "\<exists>s t. state_init lib v argv0 args tr = (Inr (s, v'), t)"
    unfolding state_init_def using len by (simp add: thn_Inr parse n esnprintf_def)
  then obtain s t where s: "state_init lib v argv0 args tr = (Inr (s, v'), t)" by blast
  show ?thesis
    unfolding main_open_def by (simp add: thn_Inr s n lib(2))
qed

lemma create_extensible_dset_completes:
  assumes lib: "\<And>tr c. 0 \<le> lib tr c"
    and which: "unat which < 10" "unat which < length (dataset s)"
    and fresh: "dataset s ! unat which = badhid"
  shows "\<exists>s' tr'. create_extensible_dset lib s which tr = (Inr s', tr')"
proof -
  have n: "\<not> lib t c < 0" for t c
    using lib[of t c] by simp
  have w: "which \<le> 99" using which(1) by (simp add: word_le_nat_alt)
  have d: "length (decimal (unat which)) = 1"
    using which(1) by (subst decimal.simps) simp
  show ?thesis
    unfolding create_extensible_dset_def
    by (simp add: thn_Inr n w d which(2) fresh esnprintf_def)
qed

lemma create_all_completes:
  assumes lib: "\<And>tr c. 0 \<le> lib tr c"
    and "which + n \<le> NSETS" "length (dataset s) = NSETS"
    and "\<And>i. which \<le> i \<Longrightarrow> i < NSETS \<Longrightarrow> dataset s ! i = badhid"
  shows "\<exists>s' tr'. create_all lib n which s tr = (Inr s', tr')"
  using assms(2-)
proof (induction n arbitrary: which s tr)
  case 0
  then show ?case by simp
next
  case (Suc n)
  have lt: "which < NSETS" using Suc.prems(1) by simp
  have w: "unat (of_nat which :: uint32_t) = which"
    using lt by (intro unat_of_nat_small) (simp add: NSETS_def)
  obtain s1 t1 where c: "create_extensible_dset lib s (of_nat which) tr = (Inr s1, t1)"
    using create_extensible_dset_completes[of lib "of_nat which" s tr, OF lib]
      lt Suc.prems(2) Suc.prems(3)[of which] unfolding w by (auto simp: NSETS_def)
  from create_extensible_dset_ok[OF c] obtain ds where
    s1: "s1 = s\<lparr>dataset := (dataset s)[which := ds]\<rparr>" unfolding w by blast
  have "\<exists>s' tr'. create_all lib n (Suc which) s1 t1 = (Inr s', tr')"
  proof (rule Suc.IH)
    show "Suc which + n \<le> NSETS" using Suc.prems(1) by simp
    show "length (dataset s1) = NSETS" using Suc.prems(2) by (simp add: s1)
    show "dataset s1 ! i = badhid" if "Suc which \<le> i" "i < NSETS" for i
      using that Suc.prems(3)[of i] by (simp add: s1)
  qed
  then show ?case using c by simp
qed

lemma main_close_completes:
  assumes lib: "\<And>tr c. 0 \<le> lib tr c"
  shows "\<exists>tr'. main_close lib s h tr = (Inr (), tr')"
proof -
  have n: "\<not> lib t c < 0" for t c
    using lib[of t c] by simp
  show ?thesis
    unfolding main_close_def by (simp add: thn_Inr n)
qed

lemma write_all_completes:
  assumes lib: "\<And>tr c. 0 \<le> lib tr c"
    and len: "length (dataset s) = NSETS"
    and "which + n \<le> NSETS" "step \<le> 254"
  shows "\<exists>m t. write_all lib s step n which mat tr = (Inr m, t)"
  using assms(3-)
proof (induction n arbitrary: which mat tr)
  case 0
  then show ?case by simp
next
  case (Suc n)
  have lt: "which < NSETS" using Suc.prems(1) by simp
  have w: "unat (of_nat which :: uint32_t) = which"
    using lt by (intro unat_of_nat_small) (simp add: NSETS_def)
  have k: "unat (of_nat step :: uint32_t) = step"
    using Suc.prems(2) by (intro unat_of_nat_small) simp
  obtain m1 t1 where c: "write_extensible_dset lib s (of_nat which) (of_nat step) mat tr = (Inr m1, t1)"
    using write_extensible_dset_completes[of lib "of_nat which" s "of_nat step" mat tr, OF lib]
      lt len Suc.prems(2) unfolding w k by (auto simp: NSETS_def)
  let ?ns = "(nanosleep (update_interval s), lib t1 (nanosleep (update_interval s)))"
  have "\<exists>m t. write_all lib s step n (Suc which) m1 (t1 @ [?ns]) = (Inr m, t)"
    using Suc.prems by (intro Suc.IH) simp_all
  then show ?case using c by (simp add: lib_call_def)
qed

lemma epochs_completes:
  assumes lib: "\<And>tr c. 0 \<le> lib tr c"
    and len: "length (dataset s) = NSETS"
    and "step + n \<le> 255"
  shows "\<exists>m t. epochs lib s n step mat tr = (Inr m, t)"
  using assms(3-)
proof (induction n arbitrary: step mat tr)
  case 0
  then show ?case by simp
next
  case (Suc n)
  obtain m1 t1 where c: "write_all lib s step NSETS 0 mat tr = (Inr m1, t1)"
    using write_all_completes[of lib s 0 NSETS step mat tr, OF lib len] Suc.prems by auto
  have "\<exists>m t. epochs lib s n (Suc step) m1 t1 = (Inr m, t)"
    using Suc.prems by (intro Suc.IH) simp
  then show ?case using c by simp
qed

lemma main_completes:
  assumes lib: "\<And>tr c. 0 \<le> lib tr c" "\<And>tr n. lib tr (malloc n) \<noteq> 0"
    and parse: "parse_args v argv0 args = Inr (s0, v')"
    and len: "length (progname s0) + 3 < PATH_MAX"
    and steps: "unat (nsteps s0) \<le> 255"
  shows "\<exists>tr. main lib v argv0 args mat0 [] = (Inr (), tr)"
proof -
  obtain s h t1 where o: "main_open lib v argv0 args [] = (Inr (s, h), t1)"
    using main_open_completes[of lib v argv0 args s0 v' "[]", OF lib parse len] by blast
  from main_open_ok[OF o] parse obtain sp out f where
    s: "s = s0\<lparr>dataset := replicate NSETS badhid, memspace := sp, output_file := out, h5file := f\<rparr>"
    by auto
  obtain s' t2 where c: "create_all lib NSETS 0 s t1 = (Inr s', t2)"
    using create_all_completes[of lib 0 NSETS s t1, OF lib(1)] unfolding s by auto
  from create_all_ok[OF c] obtain d where
    d: "s' = s\<lparr>dataset := d\<rparr>" "length d = length (dataset s)" by auto
  have z: "unat (nsteps s') \<le> 255" using steps by (simp add: d(1) s)
  have l: "length (dataset s') = NSETS" using d(2) by (simp add: d(1) s)
  obtain m t3 where e: "epochs lib s' (unat (nsteps s')) 0 mat0 t2 = (Inr m, t3)"
    using epochs_completes[of lib s' 0 "unat (nsteps s')" mat0 t2, OF lib(1) l] z by auto
  obtain t4 where x: "main_close lib s' h t3 = (Inr (), t4)"
    using main_close_completes[of lib s' h t3, OF lib(1)] by blast
  show ?thesis
    unfolding main_def using o c e x by (simp add: thn_Inr)
qed

subsection \<open>Runs that the assertion of \<^verbatim>\<open>init_matrix\<close> stops\<close>

text \<open>
  In one dimension, with 256 steps or more and a library none of whose calls fails,
  the run gets through the steps 0 to 254 and through the first dataset of step 255, and
  stops at the second: \<^verbatim>\<open>init_matrix\<close> would store \<^verbatim>\<open>UINT32_MAX + 1\<close> at the position
  \<open>(65535, 0)\<close>.  The file is never closed.
\<close>

lemma write_extensible_dset_asserts:
  assumes lib: "\<And>tr c. 0 \<le> lib tr c"
    and "unat which < length (dataset s)" "which \<noteq> 0" "\<not> two_dee s"
  shows "\<exists>tr'. write_extensible_dset lib s which 255 mat tr = (Inl AssertFailed, tr')"
proof -
  have n: "\<not> lib t c < 0" "lib t c \<noteq> badhid" for t c
    using lib[of t c] by (simp_all add: badhid_def H5I_INVALID_HID_def)
  have b: "last_base False 255 = \<lparr>row = 65280, col = 0\<rparr>"
    by (simp add: last_base_def original_dims_def ROWS_def)
  have i: "init_matrix mat which (last_base False 255) = Inl AssertFailed"
    unfolding b
    by (rule init_matrix_fail[of 255 0, OF _ _ cell_fails_255[OF assms(3)]])
       (simp_all add: ROWS_def COLS_def)
  show ?thesis
    unfolding write_extensible_dset_def init_and_write_chunk_def
    using assms(2,4)
    by (simp add: thn_def lib_call_def errx_if_def assert_def ret_def stop_def lift_def n i)
qed

lemma write_all_asserts:
  assumes lib: "\<And>tr c. 0 \<le> lib tr c"
    and len: "length (dataset s) = NSETS" and one: "\<not> two_dee s"
  shows "\<exists>tr'. write_all lib s 255 NSETS 0 mat tr = (Inl AssertFailed, tr')"
proof -
  have N: "NSETS = Suc (Suc (Suc (Suc (Suc 0))))" by (simp add: NSETS_def)
  obtain m1 t1 where c: "write_extensible_dset lib s 0 255 mat tr = (Inr m1, t1)"
    using write_extensible_dset_completes[of lib 0 s 255 mat tr, OF lib] len
    by (auto simp: NSETS_def)
  let ?t = "t1 @ [(nanosleep (update_interval s), lib t1 (nanosleep (update_interval s)))]"
  obtain t2 where a: "write_extensible_dset lib s 1 255 m1 ?t = (Inl AssertFailed, t2)"
    using write_extensible_dset_asserts[of lib 1 s m1 ?t, OF lib] len one
    by (auto simp: NSETS_def)
  show ?thesis
    unfolding N using c a by (simp add: lib_call_def)
qed

lemma epochs_asserts:
  assumes lib: "\<And>tr c. 0 \<le> lib tr c"
    and len: "length (dataset s) = NSETS" and one: "\<not> two_dee s"
    and "step \<le> 255" "255 < step + n"
  shows "\<exists>tr'. epochs lib s n step mat tr = (Inl AssertFailed, tr')"
  using assms(4-)
proof (induction n arbitrary: step mat tr)
  case 0
  then show ?case by simp
next
  case (Suc n)
  show ?case
  proof (cases "step = 255")
    case True
    then show ?thesis
      using write_all_asserts[of lib s mat tr, OF lib len one] by auto
  next
    case False
    then have k: "step \<le> 254" using Suc.prems(1) by simp
    obtain m1 t1 where c: "write_all lib s step NSETS 0 mat tr = (Inr m1, t1)"
      using write_all_completes[of lib s 0 NSETS step mat tr, OF lib len] k by auto
    have "\<exists>tr'. epochs lib s n (Suc step) m1 t1 = (Inl AssertFailed, tr')"
      using Suc.prems k by (intro Suc.IH) simp_all
    then show ?thesis using c by simp
  qed
qed

lemma main_asserts:
  assumes lib: "\<And>tr c. 0 \<le> lib tr c" "\<And>tr n. lib tr (malloc n) \<noteq> 0"
    and parse: "parse_args v argv0 args = Inr (s0, v')"
    and len: "length (progname s0) + 3 < PATH_MAX"
    and one: "\<not> two_dee s0" and steps: "256 \<le> unat (nsteps s0)"
  shows "\<exists>tr. main lib v argv0 args mat0 [] = (Inl AssertFailed, tr)"
proof -
  obtain s h t1 where o: "main_open lib v argv0 args [] = (Inr (s, h), t1)"
    using main_open_completes[of lib v argv0 args s0 v' "[]", OF lib parse len] by blast
  from main_open_ok[OF o] parse obtain sp out f where
    s: "s = s0\<lparr>dataset := replicate NSETS badhid, memspace := sp, output_file := out, h5file := f\<rparr>"
    by auto
  obtain s' t2 where c: "create_all lib NSETS 0 s t1 = (Inr s', t2)"
    using create_all_completes[of lib 0 NSETS s t1, OF lib(1)] unfolding s by auto
  from create_all_ok[OF c] obtain d where
    d: "s' = s\<lparr>dataset := d\<rparr>" "length d = length (dataset s)" by auto
  have z: "256 \<le> unat (nsteps s')" using steps by (simp add: d(1) s)
  have l: "length (dataset s') = NSETS" using d(2) by (simp add: d(1) s)
  have t: "\<not> two_dee s'" using one by (simp add: d(1) s)
  obtain t3 where e: "epochs lib s' (unat (nsteps s')) 0 mat0 t2 = (Inl AssertFailed, t3)"
    using epochs_asserts[of lib s' 0 "unat (nsteps s')" mat0 t2, OF lib(1) l t] z by auto
  show ?thesis
    unfolding main_def using o c e by (simp add: thn_def)
qed

lemma main_reaches_epochs:
  assumes run: "main lib v argv0 args mat0 [] = (res, tr)"
    and reached: "res = Inr () \<or> occurs is_set_extent tr \<or> occurs close_call tr \<or>
       (never_fails lib \<and>
        (\<exists>s0 v'. parse_args v argv0 args = Inr (s0, v') \<and> length (progname s0) + 3 < PATH_MAX))"
  shows "\<exists>s h t1 s' t2 s0 v' eo ec rest.
     main_open lib v argv0 args [] = (Inr (s, h), t1) \<and>
     create_all lib NSETS 0 s t1 = (Inr s', t2) \<and>
     parse_args v argv0 args = Inr (s0, v') \<and>
     two_dee s' = two_dee s0 \<and> nsteps s' = nsteps s0 \<and>
     use_vfd_swmr s' = use_vfd_swmr s0 \<and> wait_for_signal s' = wait_for_signal s0 \<and>
     t1 = eo \<and> t2 = eo @ ec \<and> tr = eo @ ec @ rest \<and>
     (\<forall>e\<in>set eo. open_call (fst e)) \<and> (\<forall>e\<in>set ec. create_call (fst e)) \<and>
     (\<forall>e\<in>set rest. epoch_call (fst e) \<or> close_call (fst e)) \<and>
     adds datasets ec (map (dataset_entry (two_dee s0)) [0..<NSETS])"
  using run
proof (cases rule: main_cases)
  case (open_failed e)
  from emitsD[OF emits_main_open open_failed(1)] obtain evs where
    "tr = [] @ evs" "\<forall>e\<in>set evs. open_call (fst e)" by blast
  then have "\<not> occurs is_set_extent tr" "\<not> occurs close_call tr"
    unfolding occurs_def by (auto dest: open_not_set_extent open_not_close)
  moreover have "\<not> (never_fails lib \<and>
        (\<exists>s0 v'. parse_args v argv0 args = Inr (s0, v') \<and> length (progname s0) + 3 < PATH_MAX))"
  proof
    assume w: "never_fails lib \<and>
        (\<exists>s0 v'. parse_args v argv0 args = Inr (s0, v') \<and> length (progname s0) + 3 < PATH_MAX)"
    then obtain s0 v' where p: "parse_args v argv0 args = Inr (s0, v')"
      "length (progname s0) + 3 < PATH_MAX" by blast
    have l: "0 \<le> lib t c" "lib t (malloc n) \<noteq> 0" for t c n
      using w by (simp_all add: never_fails_def)
    from main_open_completes[of lib v argv0 args s0 v' "[]", OF l p] open_failed(1)
    show False by simp
  qed
  ultimately have False using reached open_failed(2) by blast
  then show ?thesis ..
next
  case (create_failed s h t1 e)
  from emitsD[OF emits_main_open create_failed(1)] obtain eo where
    eo: "t1 = [] @ eo" "\<forall>e\<in>set eo. open_call (fst e)" by blast
  from create_all_kinds[OF create_failed(2)] obtain ec where
    ec: "tr = t1 @ ec" "\<forall>e\<in>set ec. create_call (fst e)" by blast
  have "\<not> occurs is_set_extent eo" "\<not> occurs close_call eo"
    using eo(2) unfolding occurs_def by (auto dest: open_not_set_extent open_not_close)
  moreover have "\<not> occurs is_set_extent ec" "\<not> occurs close_call ec"
    using ec(2) unfolding occurs_def by (auto dest: create_not_set_extent create_not_close)
  ultimately have "\<not> occurs is_set_extent tr" "\<not> occurs close_call tr"
    using eo(1) ec(1) by (simp_all add: occurs_append)
  moreover have "\<not> (never_fails lib \<and>
        (\<exists>s0 v'. parse_args v argv0 args = Inr (s0, v') \<and> length (progname s0) + 3 < PATH_MAX))"
  proof
    assume w: "never_fails lib \<and>
        (\<exists>s0 v'. parse_args v argv0 args = Inr (s0, v') \<and> length (progname s0) + 3 < PATH_MAX)"
    have l: "0 \<le> lib t c" for t c
      using w by (simp add: never_fails_def)
    from main_open_ok[OF create_failed(1)] obtain s0 v' sp out f where
      s: "s = s0\<lparr>dataset := replicate NSETS badhid, memspace := sp, output_file := out, h5file := f\<rparr>"
      by blast
    from create_all_completes[of lib 0 NSETS s t1, OF l] create_failed(2)
    show False unfolding s by auto
  qed
  ultimately have False using reached create_failed(3) by blast
  then show ?thesis ..
next
  case (epochs_failed s h t1 s' t2 e)
  from emitsD[OF emits_main_open epochs_failed(1)] obtain eo where
    eo: "t1 = [] @ eo" "\<forall>e\<in>set eo. open_call (fst e)" by blast
  from create_all_ok[OF epochs_failed(2)] obtain ec d where
    ec: "t2 = t1 @ ec" "s' = s\<lparr>dataset := d\<rparr>"
      "adds datasets ec (map (dataset_entry (two_dee s)) [0..<0 + NSETS])" by auto
  from create_all_kinds[OF epochs_failed(2)] ec(1) have eck: "\<forall>e\<in>set ec. create_call (fst e)"
    by auto
  from epochs_kinds[OF epochs_failed(3)] obtain ee where
    ee: "tr = t2 @ ee" "\<forall>e\<in>set ee. epoch_call (fst e)" by blast
  from main_open_ok[OF epochs_failed(1)] obtain s0 v' sp out f where
    s0: "parse_args v argv0 args = Inr (s0, v')"
      "s = s0\<lparr>dataset := replicate NSETS badhid, memspace := sp, output_file := out, h5file := f\<rparr>"
    by blast
  have f: "two_dee s' = two_dee s0" "nsteps s' = nsteps s0"
    "use_vfd_swmr s' = use_vfd_swmr s0" "wait_for_signal s' = wait_for_signal s0"
    unfolding ec(2) s0(2) by simp_all
  have a: "adds datasets ec (map (dataset_entry (two_dee s0)) [0..<NSETS])"
    using ec(3) unfolding s0(2) by simp
  have t: "t1 = eo" "t2 = eo @ ec" "tr = eo @ ec @ ee"
    using eo(1) ec(1) ee(1) by simp_all
  have k: "\<forall>e\<in>set ee. epoch_call (fst e) \<or> close_call (fst e)"
    using ee(2) by blast
  show ?thesis
    using epochs_failed(1,2) s0(1) f t eo(2) eck k a by blast
next
  case (closing s h t1 s' t2 m t3)
  from emitsD[OF emits_main_open closing(1)] obtain eo where
    eo: "t1 = [] @ eo" "\<forall>e\<in>set eo. open_call (fst e)" by blast
  from create_all_ok[OF closing(2)] obtain ec d where
    ec: "t2 = t1 @ ec" "s' = s\<lparr>dataset := d\<rparr>"
      "adds datasets ec (map (dataset_entry (two_dee s)) [0..<0 + NSETS])" by auto
  from create_all_kinds[OF closing(2)] ec(1) have eck: "\<forall>e\<in>set ec. create_call (fst e)"
    by auto
  from epochs_kinds[OF closing(3)] obtain ee where
    ee: "t3 = t2 @ ee" "\<forall>e\<in>set ee. epoch_call (fst e)" by blast
  from emitsD[OF emits_main_close closing(4)] obtain cl where
    cl: "tr = t3 @ cl" "\<forall>e\<in>set cl. close_call (fst e)" by blast
  from main_open_ok[OF closing(1)] obtain s0 v' sp out f where
    s0: "parse_args v argv0 args = Inr (s0, v')"
      "s = s0\<lparr>dataset := replicate NSETS badhid, memspace := sp, output_file := out, h5file := f\<rparr>"
    by blast
  have f: "two_dee s' = two_dee s0" "nsteps s' = nsteps s0"
    "use_vfd_swmr s' = use_vfd_swmr s0" "wait_for_signal s' = wait_for_signal s0"
    unfolding ec(2) s0(2) by simp_all
  have a: "adds datasets ec (map (dataset_entry (two_dee s0)) [0..<NSETS])"
    using ec(3) unfolding s0(2) by simp
  have t: "t1 = eo" "t2 = eo @ ec" "tr = eo @ ec @ (ee @ cl)"
    using eo(1) ec(1) ee(1) cl(1) by simp_all
  have k: "\<forall>e\<in>set (ee @ cl). epoch_call (fst e) \<or> close_call (fst e)"
    using ee(2) cl(2) by auto
  show ?thesis
    using closing(1,2) s0(1) f t eo(2) eck k a by blast
qed

subsection \<open>Claims on \<^verbatim>\<open>main\<close>\<close>

text \<open>
  Claim C7.  Take a run of \<^verbatim>\<open>main\<close> that gets to a write epoch (a call of
  \<^verbatim>\<open>H5Dset_extent\<close>) or to its end, whatever the library does; or a run in which no
  library call fails, on a command line that \<^verbatim>\<open>state_init\<close> accepts, with a program name
  short enough for the name of the output file.  Before the first write epoch it has
  created exactly five datasets, \<^verbatim>\<open>/dataset-0\<close> to \<^verbatim>\<open>/dataset-4\<close> in this order, each of
  256 by 512 elements, with chunks of 256 by 512 elements, and with the maximum
  dimensions unlimited by 512 in one dimension and unlimited by unlimited in two; and
  it creates no other dataset afterwards.
\<close>

theorem main_creates_datasets:
  assumes run: "main lib v argv0 args mat0 [] = (res, tr)"
    and reached: "res = Inr () \<or> occurs is_set_extent tr \<or>
       (never_fails lib \<and>
        (\<exists>s v'. parse_args v argv0 args = Inr (s, v') \<and> length (progname s) + 3 < PATH_MAX))"
  shows "\<exists>s v'. parse_args v argv0 args = Inr (s, v') \<and>
     datasets (view_of (before is_set_extent tr)) =
       map (\<lambda>nm. (nm, Some ([256, 512],
                    Some (if two_dee s then [H5S_UNLIMITED, H5S_UNLIMITED] else [H5S_UNLIMITED, 512])),
                  Some [256, 512]))
         [''/dataset-0'', ''/dataset-1'', ''/dataset-2'', ''/dataset-3'', ''/dataset-4''] \<and>
     datasets (view_of tr) = datasets (view_of (before is_set_extent tr))"
proof -
  from main_reaches_epochs[OF run] reached obtain s0 v' eo ec rest where
    p: "parse_args v argv0 args = Inr (s0, v')"
    and tr: "tr = eo @ ec @ rest"
    and k: "\<forall>e\<in>set eo. open_call (fst e)" "\<forall>e\<in>set ec. create_call (fst e)"
      "\<forall>e\<in>set rest. epoch_call (fst e) \<or> close_call (fst e)"
    and a: "adds datasets ec (map (dataset_entry (two_dee s0)) [0..<NSETS])"
    by blast
  let ?K = "\<lambda>c. epoch_call c \<or> close_call c"
  have keep: "datasets (observe w (c, r)) = datasets w" if "?K c" for c r w
    using that epoch_keeps_datasets close_keeps_datasets by blast
  have o: "adds datasets eo []"
    using adds_nothing[OF k(1)] open_keeps_datasets by blast
  have r: "adds datasets rest []"
    using adds_nothing[of rest ?K datasets, OF k(3)] keep by blast
  have rb: "adds datasets (before is_set_extent rest) []"
    using adds_nothing[of "before is_set_extent rest" ?K datasets, OF kinds_before[OF k(3)]] keep
    by blast
  have n: "\<not> occurs is_set_extent (eo @ ec)"
    using k(1,2) unfolding occurs_def
    by (auto dest: open_not_set_extent create_not_set_extent)
  have b: "before is_set_extent tr = (eo @ ec) @ before is_set_extent rest"
    unfolding tr using before_append[OF n, of rest] by simp
  have d1: "datasets (view_of tr) = map (dataset_entry (two_dee s0)) [0..<NSETS]"
    unfolding tr using adds_view_of[OF adds_append[OF o adds_append[OF a r]]] by simp
  have d2: "datasets (view_of (before is_set_extent tr)) = map (dataset_entry (two_dee s0)) [0..<NSETS]"
    unfolding b using adds_view_of[OF adds_append[OF adds_append[OF o a] rb]] by simp
  show ?thesis
    using p d1 d2 unfolding dataset_entries by (intro exI[of _ s0] exI[of _ v']) simp
qed

lemma main_reaches_close:
  assumes run: "main lib v argv0 args mat0 [] = (res, tr)"
    and reached: "res = Inr () \<or> occurs close_call tr"
  shows "\<exists>s0 v' s h t1 s' t2 m t3.
     parse_args v argv0 args = Inr (s0, v') \<and>
     main_open lib v argv0 args [] = (Inr (s, h), t1) \<and>
     create_all lib NSETS 0 s t1 = (Inr s', t2) \<and>
     epochs lib s' (unat (nsteps s')) 0 mat0 t2 = (Inr m, t3) \<and>
     main_close lib s' h t3 = (res, tr) \<and>
     use_vfd_swmr s' = use_vfd_swmr s0 \<and> wait_for_signal s' = wait_for_signal s0 \<and>
     \<not> occurs close_call t3 \<and>
     length (extents (view_of t3)) = NSETS * unat (nsteps s0)"
  using run
proof (cases rule: main_cases)
  case (open_failed e)
  from main_reaches_epochs[OF run] reached open_failed show ?thesis by auto
next
  case (create_failed s h t1 e)
  from main_reaches_epochs[OF run] reached create_failed show ?thesis by auto
next
  case (epochs_failed s h t1 s' t2 e)
  from emitsD[OF emits_main_open epochs_failed(1)] obtain eo where
    eo: "t1 = [] @ eo" "\<forall>e\<in>set eo. open_call (fst e)" by blast
  from create_all_kinds[OF epochs_failed(2)] obtain ec where
    ec: "t2 = t1 @ ec" "\<forall>e\<in>set ec. create_call (fst e)" by blast
  from epochs_kinds[OF epochs_failed(3)] obtain ee where
    ee: "tr = t2 @ ee" "\<forall>e\<in>set ee. epoch_call (fst e)" by blast
  have "\<not> occurs close_call tr"
    using eo ec ee unfolding occurs_def
    by (auto dest: open_not_close create_not_close epoch_not_close)
  then show ?thesis using reached epochs_failed(4) by simp
next
  case (closing s h t1 s' t2 m t3)
  from emitsD[OF emits_main_open closing(1)] obtain eo where
    eo: "t1 = [] @ eo" "\<forall>e\<in>set eo. open_call (fst e)" by blast
  from create_all_ok[OF closing(2)] obtain d where
    d: "s' = s\<lparr>dataset := d\<rparr>" by auto
  from create_all_kinds[OF closing(2)] obtain ec where
    ec: "t2 = t1 @ ec" "\<forall>e\<in>set ec. create_call (fst e)" by blast
  from epochs_kinds[OF closing(3)] obtain ee where
    ee: "t3 = t2 @ ee" "\<forall>e\<in>set ee. epoch_call (fst e)" by blast
  from epochs_count[OF closing(3)] ee(1) obtain xs where
    xs: "adds extents ee xs" "length xs = NSETS * unat (nsteps s')" by auto
  from main_open_ok[OF closing(1)] obtain s0 v' sp out f where
    s0: "parse_args v argv0 args = Inr (s0, v')"
      "s = s0\<lparr>dataset := replicate NSETS badhid, memspace := sp, output_file := out, h5file := f\<rparr>"
    by blast
  have f: "nsteps s' = nsteps s0"
    "use_vfd_swmr s' = use_vfd_swmr s0" "wait_for_signal s' = wait_for_signal s0"
    unfolding d s0(2) by simp_all
  have n: "\<not> occurs close_call t3"
    using eo ec ee unfolding occurs_def
    by (auto dest: open_not_close create_not_close epoch_not_close)
  have "adds extents eo []"
    using adds_nothing[OF eo(2), of extents] keeps_extents open_not_set_extent by blast
  moreover have "adds extents ec []"
    using adds_nothing[OF ec(2), of extents] keeps_extents create_not_set_extent by blast
  ultimately have "extents (view_of (eo @ ec @ ee)) = xs"
    using adds_view_of[OF adds_append[OF _ adds_append[OF _ xs(1)]]] by simp
  then have x: "length (extents (view_of t3)) = NSETS * unat (nsteps s0)"
    using eo(1) ec(1) ee(1) xs(2) f(1) by simp
  show ?thesis
    using s0(1) closing f(2,3) n x by blast
qed

lemma take_no_await:
  assumes "map fst cl = take (length cl) cs" "\<forall>c\<in>set cs. \<not> K c"
  shows "\<not> occurs K cl"
proof -
  have "set (map fst cl) \<subseteq> set cs"
    using set_take_subset[of "length cl" cs] assms(1) by simp
  then show ?thesis using assms(2) unfolding occurs_def by auto
qed

text \<open>
  Claim C4, as amended.  In every run of \<^verbatim>\<open>main\<close>, whatever the library does:
  \<^verbatim>\<open>await_signal\<close> is called if and only if the run gets to the end of \<^verbatim>\<open>main\<close> (the part
  from \<^verbatim>\<open>await_signal\<close> to \<^verbatim>\<open>free\<close>) and the command line has neither \<^verbatim>\<open>-S\<close> nor \<^verbatim>\<open>-W\<close>;
  it is then the first call of the end.  The end begins where the loop over the steps
  has returned, after \<open>NSETS * nsteps\<close> calls of \<^verbatim>\<open>H5Dset_extent\<close>, and its calls are, in this
  order, \<^verbatim>\<open>await_signal\<close> (without \<^verbatim>\<open>-S\<close> and \<^verbatim>\<open>-W\<close> only), \<^verbatim>\<open>restore_signals\<close>, the two
  \<^verbatim>\<open>H5Pclose\<close>, \<^verbatim>\<open>H5Fclose\<close> and \<^verbatim>\<open>free\<close>, all of them in a run that completes: the wait
  comes after the last step and before the file is closed, and with \<^verbatim>\<open>-S\<close> or \<^verbatim>\<open>-W\<close> the
  writer goes on to close at once.  A run completes when no library call fails, the
  command line is accepted with at most 255 steps, and the program name is short enough
  for the name of the output file.
\<close>

theorem main_await_signal:
  assumes run: "main lib v argv0 args mat0 [] = (res, tr)"
  shows "(never_fails lib \<and>
      (\<exists>s0 v'. parse_args v argv0 args = Inr (s0, v') \<and> length (progname s0) + 3 < PATH_MAX \<and>
         unat (nsteps s0) \<le> 255) \<longrightarrow> res = Inr ()) \<and>
     (res = Inr () \<longrightarrow> occurs close_call tr) \<and>
     (occurs is_await tr \<longleftrightarrow>
        occurs close_call tr \<and> no_flag (CHR ''S'') args \<and> no_flag (CHR ''W'') args) \<and>
     (occurs is_await tr \<longrightarrow> before is_await tr = before close_call tr) \<and>
     (occurs close_call tr \<longrightarrow>
        (\<exists>s0 v' s h t1 s' t2 m.
           parse_args v argv0 args = Inr (s0, v') \<and>
           main_open lib v argv0 args [] = (Inr (s, h), t1) \<and>
           create_all lib NSETS 0 s t1 = (Inr s', t2) \<and>
           epochs lib s' (unat (nsteps s')) 0 mat0 t2 = (Inr m, before close_call tr) \<and>
           length (extents (view_of (before close_call tr))) = NSETS * unat (nsteps s0) \<and>
           map fst (since close_call tr) =
             take (length (since close_call tr))
               ((if no_flag (CHR ''S'') args \<and> no_flag (CHR ''W'') args
                 then [await_signal (h5file s')] else []) @
                [restore_signals, H5Pclose (fapl h), H5Pclose (fcpl h), H5Fclose (h5file s'), free]) \<and>
           (res = Inr () \<longrightarrow>
              length (since close_call tr) =
                (if no_flag (CHR ''S'') args \<and> no_flag (CHR ''W'') args then 6 else 5))))"
proof -
  have tot: "never_fails lib \<and>
      (\<exists>s0 v'. parse_args v argv0 args = Inr (s0, v') \<and> length (progname s0) + 3 < PATH_MAX \<and>
         unat (nsteps s0) \<le> 255) \<longrightarrow> res = Inr ()"
  proof
    assume w: "never_fails lib \<and>
      (\<exists>s0 v'. parse_args v argv0 args = Inr (s0, v') \<and> length (progname s0) + 3 < PATH_MAX \<and>
         unat (nsteps s0) \<le> 255)"
    then obtain s0 v' where p: "parse_args v argv0 args = Inr (s0, v')"
      "length (progname s0) + 3 < PATH_MAX" "unat (nsteps s0) \<le> 255" by blast
    have l: "0 \<le> lib t c" "lib t (malloc n) \<noteq> 0" for t c n
      using w by (simp_all add: never_fails_def)
    from main_completes[of lib v argv0 args s0 v' mat0, OF l p] run
    show "res = Inr ()" by simp
  qed
  show ?thesis
  proof (cases "res = Inr () \<or> occurs close_call tr")
  case False
  then have "\<not> occurs is_await tr" using not_close_occurs by blast
  with False tot show ?thesis by simp
next
  case True
  from main_reaches_close[OF run True] obtain s0 v' s h t1 s' t2 m t3 where
    p: "parse_args v argv0 args = Inr (s0, v')"
    and o: "main_open lib v argv0 args [] = (Inr (s, h), t1)"
    and c: "create_all lib NSETS 0 s t1 = (Inr s', t2)"
    and e: "epochs lib s' (unat (nsteps s')) 0 mat0 t2 = (Inr m, t3)"
    and cl: "main_close lib s' h t3 = (res, tr)"
    and f: "use_vfd_swmr s' = use_vfd_swmr s0" "wait_for_signal s' = wait_for_signal s0"
    and n: "\<not> occurs close_call t3"
    and x: "length (extents (view_of t3)) = NSETS * unat (nsteps s0)"
    by blast
  let ?w = "no_flag (CHR ''S'') args \<and> no_flag (CHR ''W'') args"
  let ?L = "(if ?w then [await_signal (h5file s')] else []) @
     [restore_signals, H5Pclose (fapl h), H5Pclose (fcpl h), H5Fclose (h5file s'), free]"
  have w: "use_vfd_swmr s' \<and> wait_for_signal s' \<longleftrightarrow> ?w"
    using parse_args_flags[OF p] f unfolding no_flag_def by simp
  from main_close_shape[OF cl] obtain es where
    es: "tr = t3 @ es" "es \<noteq> []" "map fst es = take (length es) ?L"
      "res = Inr () \<longrightarrow> length es = length ?L"
    unfolding w by blast
  obtain a as where a: "es = a # as" using es(2) by (cases es) auto
  have ak: "close_call (fst a)"
    using es(3) unfolding a by (auto simp: close_call_def split: if_splits)
  have aw: "?w \<Longrightarrow> is_await (fst a)"
    using es(3) unfolding a by (auto simp: is_await_def split: if_splits)
  have b: "before close_call tr = t3"
    unfolding es(1) a using before_append[OF n, of "a # as"] before_hd[of close_call a as, OF ak] by simp
  have s: "since close_call tr = es"
    unfolding es(1) a using since_append[OF n, of "a # as"] since_hd[of close_call a as, OF ak] by simp
  have k: "occurs close_call tr"
    unfolding es(1) a occurs_def using ak by simp
  have na: "\<not> occurs is_await t3" using n not_close_occurs by blast
  have i: "occurs is_await tr \<longleftrightarrow> ?w"
  proof (cases ?w)
    case True
    then show ?thesis unfolding es(1) a occurs_def using aw by simp
  next
    case False
    have "\<not> occurs is_await es"
      using take_no_await[OF es(3), of is_await] False by (simp add: is_await_def)
    then show ?thesis using False na unfolding es(1) by (simp add: occurs_append)
  qed
  have ba: "before is_await tr = t3" if "occurs is_await tr"
    unfolding es(1) a using before_append[OF na, of "a # as"] before_hd[of is_await a as, OF aw] that i by simp
  have 1: "res = Inr () \<longrightarrow> occurs close_call tr" using k by simp
  have 2: "occurs is_await tr \<longleftrightarrow> occurs close_call tr \<and> ?w" using i k by simp
  have 3: "occurs is_await tr \<longrightarrow> before is_await tr = before close_call tr" using ba b by simp
  have 5: "res = Inr () \<longrightarrow> length (since close_call tr) = (if ?w then 6 else 5)"
    using es(4) unfolding s by simp
  have 4: "\<exists>s0 v' s h t1 s' t2 m.
           parse_args v argv0 args = Inr (s0, v') \<and>
           main_open lib v argv0 args [] = (Inr (s, h), t1) \<and>
           create_all lib NSETS 0 s t1 = (Inr s', t2) \<and>
           epochs lib s' (unat (nsteps s')) 0 mat0 t2 = (Inr m, before close_call tr) \<and>
           length (extents (view_of (before close_call tr))) = NSETS * unat (nsteps s0) \<and>
           map fst (since close_call tr) =
             take (length (since close_call tr))
               ((if ?w then [await_signal (h5file s')] else []) @
                [restore_signals, H5Pclose (fapl h), H5Pclose (fcpl h), H5Fclose (h5file s'), free]) \<and>
           (res = Inr () \<longrightarrow> length (since close_call tr) = (if ?w then 6 else 5))"
    using p o c e x es(3) 5 unfolding b s by blast
  show ?thesis using tot 1 2 3 4 by blast
qed
qed

lemma parse0: "parse_args 0 ''w'' [''-n'', ''2''] = Inr (ALL_HID_INITIALIZER\<lparr>progname := ''w'', nsteps := 2\<rparr>, 0)"
  by (simp add: opt_eval)

lemma parse0W: "parse_args 0 ''w'' [''-W'', ''-n'', ''2''] =
    Inr (ALL_HID_INITIALIZER\<lparr>progname := ''w'', wait_for_signal := False, nsteps := 2\<rparr>, 0)"
  by (simp add: opt_eval)

lemma parse256: "parse_args 0 ''w'' [''-n'', ''256''] =
    Inr (ALL_HID_INITIALIZER\<lparr>progname := ''w'', nsteps := 256\<rparr>, 0)"
  by (simp add: opt_eval)

lemma letters0: "getopt_letters ([], [''-n'', n], []) = ''n''"
  by (simp add: getopt_letters.simps getopt_letter_def optstring_def)

lemma letters0W: "getopt_letters ([], [''-W'', ''-n'', n], []) = ''Wn''"
  by (simp add: getopt_letters.simps getopt_letter_def optstring_def)

lemma never_fails_one: "never_fails (\<lambda>tr c. 1)"
  by (simp add: never_fails_def)

lemma main_open_constant:
  assumes "main_open (\<lambda>tr c. k) v argv0 args tr = (Inr (s, h), t1)"
  shows "h5file s = k \<and> fapl h = k \<and> fcpl h = k"
proof -
  obtain r0 t0 where c: "state_init (\<lambda>tr c. k) v argv0 args tr = (r0, t0)"
    by (cases "state_init (\<lambda>tr c. k) v argv0 args tr") blast
  show ?thesis
  proof (cases r0)
    case (Inl e)
    then show ?thesis using assms c unfolding main_open_def by (simp add: thn_def)
  next
    case (Inr p)
    obtain s1 v1 where p: "p = (s1, v1)" by (cases p) blast
    show ?thesis
      using assms c unfolding main_open_def Inr p
      by (auto simp: thn_Inr)
  qed
qed

lemma since_drop: "since K tr = drop (length (before K tr)) tr"
  by (simp add: since_def before_def dropWhile_eq_drop)

lemma close_adds_no_extent:
  assumes "main_close lib s h t3 = (res, tr)"
  shows "extents (view_of tr) = extents (view_of t3)"
proof -
  from emitsD[OF emits_main_close assms] obtain cl where
    cl: "tr = t3 @ cl" "\<forall>e\<in>set cl. close_call (fst e)" by blast
  have "adds extents cl []"
    using adds_nothing[OF cl(2), of extents] keeps_extents close_not_set_extent by blast
  then show ?thesis
    unfolding cl(1) view_of_def by (simp add: adds_def view_from_append)
qed

text \<open>
  Claim C7 on the command line \<^verbatim>\<open>-n 2\<close>, with a library whose calls all return 1: the run
  completes, the five datasets of one dimension exist before the first write epoch,
  and ten extents are set after that.  On \<^verbatim>\<open>-n 256\<close> the run is stopped by the assertion
  of \<^verbatim>\<open>init_matrix\<close>, after it has created the same five datasets.
\<close>

theorem main_creates_datasets_witness:
  "\<exists>tr. main (\<lambda>tr c. 1) 0 ''w'' [''-n'', ''2''] (\<lambda>r c. 0) [] = (Inr (), tr) \<and>
     datasets (view_of (before is_set_extent tr)) =
       [(''/dataset-0'', Some ([256, 512], Some [H5S_UNLIMITED, 512]), Some [256, 512]),
        (''/dataset-1'', Some ([256, 512], Some [H5S_UNLIMITED, 512]), Some [256, 512]),
        (''/dataset-2'', Some ([256, 512], Some [H5S_UNLIMITED, 512]), Some [256, 512]),
        (''/dataset-3'', Some ([256, 512], Some [H5S_UNLIMITED, 512]), Some [256, 512]),
        (''/dataset-4'', Some ([256, 512], Some [H5S_UNLIMITED, 512]), Some [256, 512])] \<and>
     datasets (view_of tr) = datasets (view_of (before is_set_extent tr)) \<and>
     length (extents (view_of tr)) = 10 \<and>
     (\<exists>tr'. main (\<lambda>tr c. 1) 0 ''w'' [''-n'', ''256''] (\<lambda>r c. 0) [] = (Inl AssertFailed, tr') \<and>
        datasets (view_of tr') =
          [(''/dataset-0'', Some ([256, 512], Some [H5S_UNLIMITED, 512]), Some [256, 512]),
           (''/dataset-1'', Some ([256, 512], Some [H5S_UNLIMITED, 512]), Some [256, 512]),
           (''/dataset-2'', Some ([256, 512], Some [H5S_UNLIMITED, 512]), Some [256, 512]),
           (''/dataset-3'', Some ([256, 512], Some [H5S_UNLIMITED, 512]), Some [256, 512]),
           (''/dataset-4'', Some ([256, 512], Some [H5S_UNLIMITED, 512]), Some [256, 512])])"
proof -
  have l: "0 \<le> (\<lambda>tr c. 1 :: int) tr c" "(\<lambda>tr c. 1 :: int) tr (malloc n) \<noteq> 0"
    for tr :: trace and c :: call and n by simp_all
  obtain tr where run: "main (\<lambda>tr c. 1) 0 ''w'' [''-n'', ''2''] (\<lambda>r c. 0) [] = (Inr (), tr)"
    using main_completes[of "\<lambda>tr c. 1" 0 "''w''" "[''-n'', ''2'']", OF l parse0]
    by (auto simp: PATH_MAX_def)
  from main_reaches_close[OF run] obtain s0 v' s' h t3 where
    "parse_args 0 ''w'' [''-n'', ''2''] = Inr (s0, v')"
    "main_close (\<lambda>tr c. 1) s' h t3 = (Inr (), tr)"
    "length (extents (view_of t3)) = NSETS * unat (nsteps s0)"
    by blast
  then have x: "length (extents (view_of tr)) = 10"
    using close_adds_no_extent[of "\<lambda>tr c. 1" s' h t3 "Inr ()" tr]
    by (auto simp: parse0 NSETS_def)
  obtain tr' where run': "main (\<lambda>tr c. 1) 0 ''w'' [''-n'', ''256''] (\<lambda>r c. 0) [] = (Inl AssertFailed, tr')"
    using main_asserts[of "\<lambda>tr c. 1" 0 "''w''" "[''-n'', ''256'']", OF l parse256]
    by (auto simp: PATH_MAX_def ALL_HID_INITIALIZER_def)
  have w: "never_fails (\<lambda>tr c. 1) \<and>
     (\<exists>s v'. parse_args 0 ''w'' [''-n'', ''256''] = Inr (s, v') \<and> length (progname s) + 3 < PATH_MAX)"
    using never_fails_one by (simp add: parse256 PATH_MAX_def)
  from main_creates_datasets[OF run'] w
  have y: "datasets (view_of tr') =
          [(''/dataset-0'', Some ([256, 512], Some [H5S_UNLIMITED, 512]), Some [256, 512]),
           (''/dataset-1'', Some ([256, 512], Some [H5S_UNLIMITED, 512]), Some [256, 512]),
           (''/dataset-2'', Some ([256, 512], Some [H5S_UNLIMITED, 512]), Some [256, 512]),
           (''/dataset-3'', Some ([256, 512], Some [H5S_UNLIMITED, 512]), Some [256, 512]),
           (''/dataset-4'', Some ([256, 512], Some [H5S_UNLIMITED, 512]), Some [256, 512])]"
    by (auto simp: parse256 ALL_HID_INITIALIZER_def)
  from main_creates_datasets[OF run] show ?thesis
    using run x run' y by (auto simp: parse0 ALL_HID_INITIALIZER_def)
qed

text \<open>
  The amended claim C4 with a library whose calls all return 1.  On \<^verbatim>\<open>-n 2\<close> the run
  completes and waits for the signal after the ten extents of the two steps, then
  closes; on \<^verbatim>\<open>-W -n 2\<close> it completes without waiting.
\<close>

theorem main_await_signal_witness:
  "\<exists>tr tr'.
     main (\<lambda>tr c. 1) 0 ''w'' [''-n'', ''2''] (\<lambda>r c. 0) [] = (Inr (), tr) \<and>
     occurs is_await tr \<and>
     length (extents (view_of (before is_await tr))) = 10 \<and>
     map fst (since is_await tr) =
       [await_signal 1, restore_signals, H5Pclose 1, H5Pclose 1, H5Fclose 1, free] \<and>
     main (\<lambda>tr c. 1) 0 ''w'' [''-W'', ''-n'', ''2''] (\<lambda>r c. 0) [] = (Inr (), tr') \<and>
     \<not> occurs is_await tr' \<and>
     map fst (since close_call tr') =
       [restore_signals, H5Pclose 1, H5Pclose 1, H5Fclose 1, free]"
proof -
  obtain res tr where run: "main (\<lambda>tr c. 1) 0 ''w'' [''-n'', ''2''] (\<lambda>r c. 0) [] = (res, tr)"
    by (cases "main (\<lambda>tr c. 1) 0 ''w'' [''-n'', ''2''] (\<lambda>r c. 0) []") blast
  obtain res' tr' where run': "main (\<lambda>tr c. 1) 0 ''w'' [''-W'', ''-n'', ''2''] (\<lambda>r c. 0) [] = (res', tr')"
    by (cases "main (\<lambda>tr c. 1) 0 ''w'' [''-W'', ''-n'', ''2''] (\<lambda>r c. 0) []") blast
  have w: "no_flag (CHR ''S'') [''-n'', ''2'']" "no_flag (CHR ''W'') [''-n'', ''2'']"
    "\<not> no_flag (CHR ''W'') [''-W'', ''-n'', ''2'']"
    by (simp_all add: no_flag_def letters0 letters0W)
  note A = main_await_signal[OF run]
  note B = main_await_signal[OF run']
  have r: "res = Inr ()"
    using A never_fails_one by (simp add: parse0 PATH_MAX_def)
  have r': "res' = Inr ()"
    using B never_fails_one by (simp add: parse0W PATH_MAX_def)
  have a: "occurs is_await tr" "before is_await tr = before close_call tr"
    using A w r by simp_all
  have b: "\<not> occurs is_await tr'" "occurs close_call tr'"
    using B w r' by simp_all
  from A a(1) w r obtain s0 v' s h t1 s' t2 m where
    p: "parse_args 0 ''w'' [''-n'', ''2''] = Inr (s0, v')"
    and o: "main_open (\<lambda>tr c. 1) 0 ''w'' [''-n'', ''2''] [] = (Inr (s, h), t1)"
    and c: "create_all (\<lambda>tr c. 1) NSETS 0 s t1 = (Inr s', t2)"
    and x: "length (extents (view_of (before close_call tr))) = NSETS * unat (nsteps s0)"
    and cl: "map fst (since close_call tr) =
       take (length (since close_call tr))
         [await_signal (h5file s'), restore_signals, H5Pclose (fapl h), H5Pclose (fcpl h),
          H5Fclose (h5file s'), free]"
    and n: "length (since close_call tr) = 6"
    by auto
  from create_all_ok[OF c] obtain d where d: "s' = s\<lparr>dataset := d\<rparr>" by auto
  have h: "h5file s' = 1" "fapl h = 1" "fcpl h = 1"
    using main_open_constant[OF o] unfolding d by simp_all
  have 1: "length (extents (view_of (before is_await tr))) = 10"
    using x p unfolding a(2) parse0 by (auto simp: NSETS_def)
  have 2: "map fst (since is_await tr) =
       [await_signal 1, restore_signals, H5Pclose 1, H5Pclose 1, H5Fclose 1, free]"
  proof -
    have "map fst (since close_call tr) =
       [await_signal 1, restore_signals, H5Pclose 1, H5Pclose 1, H5Fclose 1, free]"
      using cl unfolding n h by simp
    moreover have "since is_await tr = since close_call tr"
      unfolding since_drop[of is_await] since_drop[of close_call] a(2) by simp
    ultimately show ?thesis by simp
  qed
  from B b w r' obtain s0 v' s h t1 s' t2 m where
    o: "main_open (\<lambda>tr c. 1) 0 ''w'' [''-W'', ''-n'', ''2''] [] = (Inr (s, h), t1)"
    and c: "create_all (\<lambda>tr c. 1) NSETS 0 s t1 = (Inr s', t2)"
    and cl: "map fst (since close_call tr') =
       take (length (since close_call tr'))
         [restore_signals, H5Pclose (fapl h), H5Pclose (fcpl h), H5Fclose (h5file s'), free]"
    and n: "length (since close_call tr') = 5"
    by auto
  from create_all_ok[OF c] obtain d where d: "s' = s\<lparr>dataset := d\<rparr>" by auto
  have h: "h5file s' = 1" "fapl h = 1" "fcpl h = 1"
    using main_open_constant[OF o] unfolding d by simp_all
  have 3: "map fst (since close_call tr') =
       [restore_signals, H5Pclose 1, H5Pclose 1, H5Fclose 1, free]"
    using cl unfolding n h by simp
  show ?thesis
    using run run' r r' a(1) b(1) 1 2 3 by (intro exI[of _ tr] exI[of _ tr']) simp
qed

text \<open>
  Claim C4 as stated, for every execution, fails on the command line \<^verbatim>\<open>-n 256\<close>, which
  has neither \<^verbatim>\<open>-S\<close> nor \<^verbatim>\<open>-W\<close>, with a library whose calls all succeed (they all return
  1): the assertion of \<^verbatim>\<open>init_matrix\<close> stops the run at step 255 of the dataset 1, so that
  the loop over the steps never completes, \<^verbatim>\<open>await_signal\<close> is never called and the file
  is never closed.
\<close>

theorem main_stops_before_await:
  "\<exists>tr. main (\<lambda>tr c. 1) 0 ''w'' [''-n'', ''256''] (\<lambda>r c. 0) [] = (Inl AssertFailed, tr) \<and>
     \<not> occurs is_await tr \<and> \<not> occurs is_fclose tr \<and>
     no_flag (CHR ''S'') [''-n'', ''256''] \<and> no_flag (CHR ''W'') [''-n'', ''256'']"
proof -
  have l: "0 \<le> (\<lambda>tr c. 1 :: int) tr c" "(\<lambda>tr c. 1 :: int) tr (malloc n) \<noteq> 0"
    for tr :: trace and c :: call and n by simp_all
  obtain tr where run: "main (\<lambda>tr c. 1) 0 ''w'' [''-n'', ''256''] (\<lambda>r c. 0) [] = (Inl AssertFailed, tr)"
    using main_asserts[of "\<lambda>tr c. 1" 0 "''w''" "[''-n'', ''256'']", OF l parse256]
    by (auto simp: PATH_MAX_def ALL_HID_INITIALIZER_def)
  have "\<not> occurs close_call tr"
  proof
    assume "occurs close_call tr"
    with main_reaches_close[OF run] obtain s' h t3 where
      "main_close (\<lambda>tr c. 1) s' h t3 = (Inl AssertFailed, tr)" by blast
    with main_close_completes[of "\<lambda>tr c. 1" s' h t3, OF l(1)] show False by auto
  qed
  then have "\<not> occurs is_await tr" "\<not> occurs is_fclose tr"
    using not_close_occurs by blast+
  moreover have "no_flag (CHR ''S'') [''-n'', ''256'']" "no_flag (CHR ''W'') [''-n'', ''256'']"
    by (simp_all add: no_flag_def letters0)
  ultimately show ?thesis using run by blast
qed

subsection \<open>Claims on \<^verbatim>\<open>H5G.c\<close>\<close>

lemma no_name_create:
  assumes "name = None \<or> name = Some []"
  shows "H5Gcreate2 lib loc_id name lcpl_id gcpl_id gapl_id w =
     api_fail (errors (H5Gcreate2 lib loc_id name lcpl_id gcpl_id gapl_id w)) w"
  using assms by (auto simp: H5Gcreate2_def api_fail_def split: option.splits)

lemma no_name_open:
  assumes "name = None \<or> name = Some []"
  shows "H5Gopen2 lib loc_id name gapl_id w =
     api_fail (errors (H5Gopen2 lib loc_id name gapl_id w)) w"
  using assms by (auto simp: H5Gopen2_def api_fail_def split: option.splits)

text \<open>
  Claim C8.  For every location identifier, all property lists and every library state,
  \<^verbatim>\<open>H5Gcreate2\<close> and \<^verbatim>\<open>H5Gopen2\<close> return a negative identifier when the name is a null
  pointer or an empty string.  No group is created or opened: the library state is the one
  before the call, and the result does not depend on what \<^verbatim>\<open>H5G__create_named\<close> or
  \<^verbatim>\<open>H5G__open_name\<close> would do.
\<close>

theorem H5G_no_name:
  assumes "name = None \<or> name = Some []"
  shows "ret_value (H5Gcreate2 lib loc_id name lcpl_id gcpl_id gapl_id w) < 0 \<and>
         world (H5Gcreate2 lib loc_id name lcpl_id gcpl_id gapl_id w) = w \<and>
         (\<forall>f. H5Gcreate2 (lib\<lparr>H5G__create_named := f\<rparr>) loc_id name lcpl_id gcpl_id gapl_id w =
              H5Gcreate2 lib loc_id name lcpl_id gcpl_id gapl_id w) \<and>
         ret_value (H5Gopen2 lib loc_id name gapl_id w) < 0 \<and>
         world (H5Gopen2 lib loc_id name gapl_id w) = w \<and>
         (\<forall>f. H5Gopen2 (lib\<lparr>H5G__open_name := f\<rparr>) loc_id name gapl_id w =
              H5Gopen2 lib loc_id name gapl_id w)"
proof -
  have c: "ret_value (H5Gcreate2 lib loc_id name lcpl_id gcpl_id gapl_id w) < 0 \<and>
         world (H5Gcreate2 lib loc_id name lcpl_id gcpl_id gapl_id w) = w"
    by (subst no_name_create[OF assms], subst (2) no_name_create[OF assms])
       (simp add: api_fail_def FAIL_def)
  have c': "H5Gcreate2 (lib\<lparr>H5G__create_named := f\<rparr>) loc_id name lcpl_id gcpl_id gapl_id w =
              H5Gcreate2 lib loc_id name lcpl_id gcpl_id gapl_id w" for f
    using assms by (auto simp: H5Gcreate2_def split: option.splits)
  have p: "ret_value (H5Gopen2 lib loc_id name gapl_id w) < 0 \<and>
         world (H5Gopen2 lib loc_id name gapl_id w) = w"
    by (subst no_name_open[OF assms], subst (2) no_name_open[OF assms])
       (simp add: api_fail_def FAIL_def)
  have p': "H5Gopen2 (lib\<lparr>H5G__open_name := f\<rparr>) loc_id name gapl_id w =
              H5Gopen2 lib loc_id name gapl_id w" for f
    using assms by (auto simp: H5Gopen2_def split: option.splits)
  from c c' p p' show ?thesis by blast
qed

text \<open>
  With a name, the same call does create the group: in the state \<open>reader0\<close> the group
  \<open>c\<close> is linked under the root group and registered as identifier 13.
\<close>

lemma create_ok_example:
  "ret_value (H5Gcreate2 spec_lib 10 (Some ''c'') 0 0 0 reader0) = 13 \<and>
   map_of (links (world (H5Gcreate2 spec_lib 10 (Some ''c'') 0 0 0 reader0))) (0, ''c'') = Some 3"
  by (simp add: H5Gcreate2_def spec_lib_def reader0_def spec_loc_def H5P_DEFAULT_def
      spec_verify_apl_and_dxpl_def spec_create_named_def register_group_def spec_register_def
      api_return_def)

text \<open>
  Claim C8 on the file identifier 10 of \<open>reader0\<close>, with an empty name and with a null
  name.
\<close>

theorem H5G_no_name_witness:
  "ret_value (H5Gcreate2 spec_lib 10 (Some '''') 0 0 0 reader0) < 0 \<and>
   world (H5Gcreate2 spec_lib 10 (Some '''') 0 0 0 reader0) = reader0 \<and>
   ret_value (H5Gopen2 spec_lib 10 None 0 reader0) < 0 \<and>
   world (H5Gopen2 spec_lib 10 None 0 reader0) = reader0"
  using H5G_no_name[of "Some ''''" spec_lib 10 0 0 0 reader0]
    H5G_no_name[of None spec_lib 10 0 0 0 reader0]
  by simp

text \<open>
  Claim C10.  \<^verbatim>\<open>H5Gget_info\<close> fails with a negative value, and leaves the caller's
  structure as it was, when the identifier is neither a group nor a file, and when the
  \<open>grp_info\<close> pointer is null.  It accepts a group identifier and a file identifier
  alike: with either, a structure to fill, and \<^verbatim>\<open>H5G_loc\<close> and \<^verbatim>\<open>H5G__obj_info\<close>
  succeeding, it returns \<^verbatim>\<open>SUCCEED\<close> and the structure holds what \<^verbatim>\<open>H5G__obj_info\<close>
  wrote for the location that \<^verbatim>\<open>H5G_loc\<close> gave.
\<close>

theorem H5Gget_info_checks:
  "(H5I_get_type lib grp_id w \<noteq> H5I_GROUP \<and> H5I_get_type lib grp_id w \<noteq> H5I_FILE \<longrightarrow>
      ret_value (fst (H5Gget_info lib grp_id grp_info w)) < 0 \<and>
      snd (H5Gget_info lib grp_id grp_info w) = grp_info) \<and>
   (grp_info = None \<longrightarrow>
      ret_value (fst (H5Gget_info lib grp_id grp_info w)) < 0 \<and>
      snd (H5Gget_info lib grp_id grp_info w) = None) \<and>
   ((H5I_get_type lib grp_id w = H5I_GROUP \<or> H5I_get_type lib grp_id w = H5I_FILE) \<longrightarrow>
      grp_info = Some v \<longrightarrow> FUNC_ENTER_API lib w \<longrightarrow> H5G_loc lib grp_id w = Some loc \<longrightarrow>
      H5G__obj_info lib loc v (H5AC_ind_read_dxpl_id lib) w = (r, v') \<longrightarrow> 0 \<le> r \<longrightarrow>
      ret_value (fst (H5Gget_info lib grp_id grp_info w)) = SUCCEED \<and>
      snd (H5Gget_info lib grp_id grp_info w) = Some v')"
proof (intro conjI impI)
  assume "H5I_get_type lib grp_id w \<noteq> H5I_GROUP \<and> H5I_get_type lib grp_id w \<noteq> H5I_FILE"
  then have ne: "H5I_GROUP \<noteq> H5I_get_type lib grp_id w" "H5I_FILE \<noteq> H5I_get_type lib grp_id w"
    by auto
  show "ret_value (fst (H5Gget_info lib grp_id grp_info w)) < 0"
    using ne by (simp add: H5Gget_info_def Let_def api_fail_def FAIL_def)
  show "snd (H5Gget_info lib grp_id grp_info w) = grp_info"
    using ne by (simp add: H5Gget_info_def Let_def)
next
  assume n: "grp_info = None"
  show "ret_value (fst (H5Gget_info lib grp_id grp_info w)) < 0"
    using n by (simp add: H5Gget_info_def Let_def api_fail_def FAIL_def)
  show "snd (H5Gget_info lib grp_id grp_info w) = None"
    using n by (simp add: H5Gget_info_def Let_def)
next
  assume t: "H5I_get_type lib grp_id w = H5I_GROUP \<or> H5I_get_type lib grp_id w = H5I_FILE"
    and v: "grp_info = Some v" and e: "FUNC_ENTER_API lib w"
    and l: "H5G_loc lib grp_id w = Some loc"
    and i: "H5G__obj_info lib loc v (H5AC_ind_read_dxpl_id lib) w = (r, v')" and r: "0 \<le> r"
  have t': "H5I_GROUP = H5I_get_type lib grp_id w \<or> H5I_FILE = H5I_get_type lib grp_id w"
    using t by auto
  have R: "H5Gget_info lib grp_id grp_info w = (api_return SUCCEED w, Some v')"
    using t' v e l i r by (auto simp: H5Gget_info_def Let_def)
  show "ret_value (fst (H5Gget_info lib grp_id grp_info w)) = SUCCEED"
    by (simp add: R api_return_def)
  show "snd (H5Gget_info lib grp_id grp_info w) = Some v'"
    by (simp add: R)
qed

lemmas spec_lib_simps = spec_lib_def reader0_def spec_loc_def spec_get_type_def
  spec_obj_info_def spec_object_verify_def spec_refresh_metadata_def refresh_def

text \<open>
  Claim C10 in the state \<open>reader0\<close>: the dataspace identifier 12 is refused and the
  structure keeps its 0; a null pointer is refused; the file identifier 10 and the
  identifier 11 of the file's root group both give the two links of the root group.
\<close>

theorem H5Gget_info_checks_witness:
  "ret_value (fst (H5Gget_info spec_lib 12 (Some 0) reader0)) < 0 \<and>
   snd (H5Gget_info spec_lib 12 (Some 0) reader0) = Some 0 \<and>
   ret_value (fst (H5Gget_info spec_lib 11 None reader0)) < 0 \<and>
   snd (H5Gget_info spec_lib 11 None reader0) = None \<and>
   ret_value (fst (H5Gget_info spec_lib 10 (Some 0) reader0)) = SUCCEED \<and>
   snd (H5Gget_info spec_lib 10 (Some 0) reader0) = Some 2 \<and>
   ret_value (fst (H5Gget_info spec_lib 11 (Some 0) reader0)) = SUCCEED \<and>
   snd (H5Gget_info spec_lib 11 (Some 0) reader0) = Some 2"
proof -
  have a: "H5I_get_type spec_lib 12 reader0 \<noteq> H5I_GROUP \<and> H5I_get_type spec_lib 12 reader0 \<noteq> H5I_FILE"
    by (simp add: spec_lib_simps)
  have f: "H5I_get_type spec_lib 10 reader0 = H5I_GROUP \<or> H5I_get_type spec_lib 10 reader0 = H5I_FILE"
    by (simp add: spec_lib_simps)
  have g: "H5I_get_type spec_lib 11 reader0 = H5I_GROUP \<or> H5I_get_type spec_lib 11 reader0 = H5I_FILE"
    by (simp add: spec_lib_simps)
  have e: "FUNC_ENTER_API spec_lib reader0" by (simp add: spec_lib_def)
  have lf: "H5G_loc spec_lib 10 reader0 = Some 0" by (simp add: spec_lib_simps)
  have lg: "H5G_loc spec_lib 11 reader0 = Some 0" by (simp add: spec_lib_simps)
  have i: "H5G__obj_info spec_lib 0 0 (H5AC_ind_read_dxpl_id spec_lib) reader0 = (0, 2)"
    by (simp add: spec_lib_simps SUCCEED_def)
  show ?thesis
    using H5Gget_info_checks[of spec_lib 12 reader0 "Some 0" 0 0 0 0] a
      H5Gget_info_checks[of spec_lib 11 reader0 None 0 0 0 0]
      H5Gget_info_checks[of spec_lib 10 reader0 "Some 0" 0 0 0 2] f e lf i
      H5Gget_info_checks[of spec_lib 11 reader0 "Some 0" 0 0 0 2] g lg
    by simp
qed

lemma refresh_idem: "refresh w = Inr w' \<Longrightarrow> refresh w' = Inr w'"
  by (auto simp: refresh_def Let_def split: if_splits)

text \<open>
  Claim C3, against the refresh of the specification.  After a successful
  \<^verbatim>\<open>H5Grefresh\<close>, a second \<^verbatim>\<open>H5Grefresh\<close> on the state the first one left (nothing
  published in between) returns the same result, \<^verbatim>\<open>SUCCEED\<close>, leaves the reader's
  snapshot (its tick, index and cached pages) as it is, and every page fetched afterwards
  is the page fetched before.
\<close>


theorem H5Grefresh_idempotent:
  assumes "0 \<le> ret_value (H5Grefresh spec_lib group_id w)"
  shows "H5Grefresh spec_lib group_id (world (H5Grefresh spec_lib group_id w)) =
           H5Grefresh spec_lib group_id w \<and>
         ret_value (H5Grefresh spec_lib group_id (world (H5Grefresh spec_lib group_id w))) = SUCCEED \<and>
         snapshot (world (H5Grefresh spec_lib group_id (world (H5Grefresh spec_lib group_id w)))) =
           snapshot (world (H5Grefresh spec_lib group_id w)) \<and>
         (\<forall>a. fetch (world (H5Grefresh spec_lib group_id (world (H5Grefresh spec_lib group_id w)))) a =
              fetch (world (H5Grefresh spec_lib group_id w)) a)"
proof -
  obtain grp where g: "spec_object_verify group_id H5I_GROUP w = Some grp"
    using assms by (cases "spec_object_verify group_id H5I_GROUP w")
      (auto simp: H5Grefresh_def spec_lib_def api_fail_def FAIL_def)
  obtain w' where r: "refresh w = Inr w'"
    using assms g by (cases "refresh w")
      (auto simp: H5Grefresh_def spec_lib_def spec_refresh_metadata_def api_fail_def FAIL_def)
  have one: "H5Grefresh spec_lib group_id w = api_return SUCCEED w'"
    using g r by (simp add: H5Grefresh_def spec_lib_def spec_refresh_metadata_def SUCCEED_def FAIL_def)
  have ids: "open_ids w' = open_ids w"
    using r by (auto simp: refresh_def Let_def split: if_splits)
  have g': "spec_object_verify group_id H5I_GROUP w' = Some grp"
    using g by (simp add: spec_object_verify_def ids)
  have two: "H5Grefresh spec_lib group_id w' = api_return SUCCEED w'"
    using g' refresh_idem[OF r]
    by (simp add: H5Grefresh_def spec_lib_def spec_refresh_metadata_def SUCCEED_def FAIL_def)
  have w: "world (H5Grefresh spec_lib group_id w) = w'"
    by (simp add: one api_return_def)
  show ?thesis
    unfolding w by (simp add: two one api_return_def)
qed

text \<open>
  Claim C3 on the group identifier 11 of \<open>reader0\<close>: the first refresh moves the reader
  from tick 1 to tick 3 and page 0 from its old content to the new one; the second refresh
  changes nothing.
\<close>

theorem H5Grefresh_idempotent_witness:
  "ret_value (H5Grefresh spec_lib 11 reader0) = 0 \<and>
   last_tick (snapshot (world (H5Grefresh spec_lib 11 reader0))) = 3 \<and>
   fetch reader0 0 = Inr [1, 2] \<and>
   fetch (world (H5Grefresh spec_lib 11 reader0)) 0 = Inr [3, 4] \<and>
   H5Grefresh spec_lib 11 (world (H5Grefresh spec_lib 11 reader0)) = H5Grefresh spec_lib 11 reader0 \<and>
   fetch (world (H5Grefresh spec_lib 11 (world (H5Grefresh spec_lib 11 reader0)))) 0 = Inr [3, 4]"
proof -
  have one: "H5Grefresh spec_lib 11 reader0 =
      api_return SUCCEED (reader0\<lparr>snapshot := (snapshot reader0)\<lparr>last_tick := 3,
         current_index := published reader0\<rparr>\<rparr>)"
    by (simp add: H5Grefresh_def spec_lib_simps SUCCEED_def FAIL_def Let_def)
  have r: "0 \<le> ret_value (H5Grefresh spec_lib 11 reader0)"
    by (simp add: one api_return_def SUCCEED_def)
  have f0: "fetch reader0 0 = Inr [1, 2]"
    by (simp add: fetch_def reader0_def)
  have f1: "fetch (world (H5Grefresh spec_lib 11 reader0)) 0 = Inr [3, 4]"
    unfolding one by (simp add: api_return_def fetch_def reader0_def)
  have t: "last_tick (snapshot (world (H5Grefresh spec_lib 11 reader0))) = 3"
    unfolding one by (simp add: api_return_def)
  have z: "ret_value (H5Grefresh spec_lib 11 reader0) = 0"
    unfolding one by (simp add: api_return_def SUCCEED_def)
  from H5Grefresh_idempotent[OF r]
  have i: "H5Grefresh spec_lib 11 (world (H5Grefresh spec_lib 11 reader0)) = H5Grefresh spec_lib 11 reader0"
    by blast
  show ?thesis
    unfolding i using z t f0 f1 by blast
qed

end
